theory Spec2Isabelle
  imports Main "HOL-Library.Word" "HOL-Library.Signed_Division" "HOL-Library.Sublist"
begin

chapter \<open>The selectors of cascadia\<close>

text \<open>
  A shallow embedding of \<^verbatim>\<open>selector.go\<close>: the predicate constructors, \<^verbatim>\<open>MatchAll\<close>
  and \<^verbatim>\<open>Compile\<close>, over a store of \<^verbatim>\<open>html.Node\<close> values, and the properties that
  the specification states of them.
\<close>

section \<open>The node model of the imported html package\<close>

text \<open>
  A \<^verbatim>\<open>*html.Node\<close> is a pointer: \<open>None\<close> is \<^verbatim>\<open>nil\<close>, \<open>Some a\<close> points to the
  node stored at address \<open>a\<close>. Go is garbage collected, so every non-nil pointer
  points to a node: the store is a total function. Strings are byte sequences.
\<close>

type_synonym addr = nat
type_synonym ptr = "addr option"

datatype NodeType = ErrorNode | TextNode | DocumentNode | ElementNode | CommentNode | DoctypeNode

record Attribute =
  Key :: string
  Val :: string

record Node =
  Parent :: ptr
  Child :: "ptr list"
  Type :: NodeType
  Data :: string
  Attr :: "Attribute list"

type_synonym heap = "addr \<Rightarrow> Node"

text \<open>
  A Go run-time panic is the left summand of a result: dereferencing \<^verbatim>\<open>nil\<close>, an
  index or a slice bound out of range, and an integer division by zero.
\<close>

datatype panic = NilDereference | IndexOutOfRange | DivideByZero

text \<open>
  The index expression \<^verbatim>\<open>s[i]\<close> and the slice expressions \<^verbatim>\<open>s[:j]\<close> and \<^verbatim>\<open>s[i:]\<close>
  of Go, on a string or a slice: they panic when the index is not below the
  length, and when the bound is above it.
\<close>

definition go_index :: "'a list \<Rightarrow> nat \<Rightarrow> panic + 'a" where
  "go_index s i = (if i < length s then Inr (s ! i) else Inl IndexOutOfRange)"

definition go_slice_to :: "'a list \<Rightarrow> nat \<Rightarrow> panic + 'a list" where
  "go_slice_to s j = (if j \<le> length s then Inr (take j s) else Inl IndexOutOfRange)"

definition go_slice_from :: "'a list \<Rightarrow> nat \<Rightarrow> panic + 'a list" where
  "go_slice_from s i = (if i \<le> length s then Inr (drop i s) else Inl IndexOutOfRange)"

text \<open>\<^verbatim>\<open>type Selector func(*html.Node) bool\<close>; the closure reads the store.\<close>

type_synonym Selector = "heap \<Rightarrow> ptr \<Rightarrow> panic + bool"

section \<open>toLowerASCII and typeSelector\<close>

definition isUpperASCII :: "char \<Rightarrow> bool" where
  "isUpperASCII c = (65 \<le> (of_char c :: nat) \<and> (of_char c :: nat) \<le> 90)"

text \<open>\<^verbatim>\<open>s[i] + ('a' - 'A')\<close> on a byte.\<close>

definition lowerByte :: "char \<Rightarrow> char" where
  "lowerByte c = char_of ((of_char c :: nat) + 32)"

text \<open>
  The loop of \<^verbatim>\<open>toLowerASCII\<close>: \<open>b\<close> is \<^verbatim>\<open>nil\<close> (\<open>None\<close>) until the first capital
  letter is met, then a copy of \<open>s\<close> that is updated in place. It runs when a
  predicate is constructed, not when one is applied to a node; its indices are
  below \<^verbatim>\<open>len(s)\<close> by the loop condition.
\<close>

function toLowerASCII_loop :: "string \<Rightarrow> nat \<Rightarrow> string option \<Rightarrow> string option" where
  "toLowerASCII_loop s i b =
     (if i < length s then
        (if isUpperASCII (s ! i) then
           (let b' = (case b of None \<Rightarrow> s | Some b0 \<Rightarrow> b0)
            in toLowerASCII_loop s (i + 1) (Some (b'[i := lowerByte (s ! i)])))
         else toLowerASCII_loop s (i + 1) b)
      else b)"
  by pat_completeness auto
termination
  by (relation "measure (\<lambda>(s, i, b). length s - i)") auto

definition toLowerASCII :: "string \<Rightarrow> string" where
  "toLowerASCII s = (case toLowerASCII_loop s 0 None of None \<Rightarrow> s | Some b \<Rightarrow> b)"

definition typeSelector :: "string \<Rightarrow> Selector" where
  "typeSelector tag =
     (let tag' = toLowerASCII tag
      in (\<lambda>h n. case n of
            None \<Rightarrow> Inl NilDereference
          | Some x \<Rightarrow> Inr (Type (h x) = ElementNode \<and> Data (h x) = tag')))"

section \<open>Attribute selectors\<close>

fun attributeExists_loop :: "string \<Rightarrow> Attribute list \<Rightarrow> bool" where
  "attributeExists_loop key [] = False"
| "attributeExists_loop key (a # as) =
     (if Key a = key then True else attributeExists_loop key as)"

definition attributeExistsSelector :: "string \<Rightarrow> Selector" where
  "attributeExistsSelector key =
     (let key' = toLowerASCII key
      in (\<lambda>h n. case n of
            None \<Rightarrow> Inl NilDereference
          | Some x \<Rightarrow> Inr (attributeExists_loop key' (Attr (h x)))))"

fun attributeEquals_loop :: "string \<Rightarrow> string \<Rightarrow> Attribute list \<Rightarrow> bool" where
  "attributeEquals_loop key val [] = False"
| "attributeEquals_loop key val (a # as) =
     (if Key a = key then Val a = val else attributeEquals_loop key val as)"

definition attributeEqualsSelector :: "string \<Rightarrow> string \<Rightarrow> Selector" where
  "attributeEqualsSelector key val =
     (let key' = toLowerASCII key
      in (\<lambda>h n. case n of
            None \<Rightarrow> Inl NilDereference
          | Some x \<Rightarrow> Inr (attributeEquals_loop key' val (Attr (h x)))))"

text \<open>The cutset \<^verbatim>\<open>" \t\r\n\f"\<close> of the call to \<^verbatim>\<open>strings.IndexAny\<close>.\<close>

definition whitespace :: string where
  "whitespace = [CHR '' '', CHR 0x09, CHR 0x0D, CHR 0x0A, CHR 0x0C]"

text \<open>
  \<^verbatim>\<open>strings.IndexAny\<close>: the index of the first byte of \<open>s\<close> that is in \<open>chars\<close>;
  Go's \<open>-1\<close> is \<open>None\<close>.
\<close>

fun IndexAny :: "string \<Rightarrow> string \<Rightarrow> nat option" where
  "IndexAny [] chars = None"
| "IndexAny (c # s) chars =
     (if c \<in> set chars then Some 0
      else (case IndexAny s chars of None \<Rightarrow> None | Some i \<Rightarrow> Some (i + 1)))"

text \<open>
  The inner loop \<^verbatim>\<open>for s != ""\<close> of \<^verbatim>\<open>attributeIncludesSelector\<close>: \<open>Inr (Some r)\<close>
  is \<^verbatim>\<open>return r\<close>, \<open>Inr None\<close> is the loop running to its end, \<open>Inl\<close> a panic of
  \<^verbatim>\<open>s[:i]\<close> or \<^verbatim>\<open>s[i+1:]\<close>.
\<close>

function includes_scan :: "string \<Rightarrow> string \<Rightarrow> panic + bool option" where
  "includes_scan s val =
     (if s \<noteq> [] then
        (case IndexAny s whitespace of
           None \<Rightarrow> Inr (Some (s = val))
         | Some i \<Rightarrow>
             (case go_slice_to s i of
                Inl e \<Rightarrow> Inl e
              | Inr t \<Rightarrow>
                  if t = val then Inr (Some True)
                  else (case go_slice_from s (i + 1) of
                          Inl e \<Rightarrow> Inl e
                        | Inr s' \<Rightarrow> includes_scan s' val)))
      else Inr None)"
  by pat_completeness auto
termination
  by (relation "measure (\<lambda>(s, val). length s)")
    (auto simp: go_slice_from_def split: if_splits)

fun attributeIncludes_loop :: "string \<Rightarrow> string \<Rightarrow> Attribute list \<Rightarrow> panic + bool" where
  "attributeIncludes_loop key val [] = Inr False"
| "attributeIncludes_loop key val (a # as) =
     (if Key a = key then
        (case includes_scan (Val a) val of
           Inl e \<Rightarrow> Inl e
         | Inr (Some r) \<Rightarrow> Inr r
         | Inr None \<Rightarrow> attributeIncludes_loop key val as)
      else attributeIncludes_loop key val as)"

definition attributeIncludesSelector :: "string \<Rightarrow> string \<Rightarrow> Selector" where
  "attributeIncludesSelector key val =
     (let key' = toLowerASCII key
      in (\<lambda>h n. case n of
            None \<Rightarrow> Inl NilDereference
          | Some x \<Rightarrow> attributeIncludes_loop key' val (Attr (h x))))"

text \<open>
  In \<^verbatim>\<open>a.Val[:len(val)] == val && a.Val[len(val)] == '-'\<close> the byte is read only when
  the prefix is \<open>val\<close>.
\<close>

fun attributeDashmatch_loop :: "string \<Rightarrow> string \<Rightarrow> Attribute list \<Rightarrow> panic + bool" where
  "attributeDashmatch_loop key val [] = Inr False"
| "attributeDashmatch_loop key val (a # as) =
     (if Key a = key then
        (if Val a = val then Inr True
         else if length (Val a) \<le> length val then Inr False
         else (case go_slice_to (Val a) (length val) of
                 Inl e \<Rightarrow> Inl e
               | Inr t \<Rightarrow>
                   if t = val then
                     (case go_index (Val a) (length val) of
                        Inl e \<Rightarrow> Inl e
                      | Inr c \<Rightarrow> if c = CHR ''-'' then Inr True else Inr False)
                   else Inr False))
      else attributeDashmatch_loop key val as)"

definition attributeDashmatchSelector :: "string \<Rightarrow> string \<Rightarrow> Selector" where
  "attributeDashmatchSelector key val =
     (let key' = toLowerASCII key
      in (\<lambda>h n. case n of
            None \<Rightarrow> Inl NilDereference
          | Some x \<Rightarrow> attributeDashmatch_loop key' val (Attr (h x))))"

text \<open>
  \<^verbatim>\<open>strings.HasPrefix\<close>, \<^verbatim>\<open>strings.HasSuffix\<close> and \<^verbatim>\<open>strings.Contains\<close> are
  \<^const>\<open>prefix\<close>, \<^const>\<open>suffix\<close> and \<^const>\<open>sublist\<close> (a contiguous part).
\<close>

fun attributePrefix_loop :: "string \<Rightarrow> string \<Rightarrow> Attribute list \<Rightarrow> bool" where
  "attributePrefix_loop key val [] = False"
| "attributePrefix_loop key val (a # as) =
     (if Key a = key then prefix val (Val a) else attributePrefix_loop key val as)"

definition attributePrefixSelector :: "string \<Rightarrow> string \<Rightarrow> Selector" where
  "attributePrefixSelector key val =
     (let key' = toLowerASCII key
      in (\<lambda>h n. case n of
            None \<Rightarrow> Inl NilDereference
          | Some x \<Rightarrow> Inr (attributePrefix_loop key' val (Attr (h x)))))"

fun attributeSuffix_loop :: "string \<Rightarrow> string \<Rightarrow> Attribute list \<Rightarrow> bool" where
  "attributeSuffix_loop key val [] = False"
| "attributeSuffix_loop key val (a # as) =
     (if Key a = key then suffix val (Val a) else attributeSuffix_loop key val as)"

definition attributeSuffixSelector :: "string \<Rightarrow> string \<Rightarrow> Selector" where
  "attributeSuffixSelector key val =
     (let key' = toLowerASCII key
      in (\<lambda>h n. case n of
            None \<Rightarrow> Inl NilDereference
          | Some x \<Rightarrow> Inr (attributeSuffix_loop key' val (Attr (h x)))))"

fun attributeSubstring_loop :: "string \<Rightarrow> string \<Rightarrow> Attribute list \<Rightarrow> bool" where
  "attributeSubstring_loop key val [] = False"
| "attributeSubstring_loop key val (a # as) =
     (if Key a = key then sublist val (Val a) else attributeSubstring_loop key val as)"

definition attributeSubstringSelector :: "string \<Rightarrow> string \<Rightarrow> Selector" where
  "attributeSubstringSelector key val =
     (let key' = toLowerASCII key
      in (\<lambda>h n. case n of
            None \<Rightarrow> Inl NilDereference
          | Some x \<Rightarrow> Inr (attributeSubstring_loop key' val (Attr (h x)))))"

section \<open>Intersection and negation\<close>

text \<open>\<^verbatim>\<open>a(n) && b(n)\<close>: \<open>b\<close> is called only when \<open>a\<close> returned true.\<close>

definition intersectionSelector :: "Selector \<Rightarrow> Selector \<Rightarrow> Selector" where
  "intersectionSelector a b =
     (\<lambda>h n. case a h n of
        Inl e \<Rightarrow> Inl e
      | Inr ra \<Rightarrow> if ra then b h n else Inr False)"

definition negatedSelector :: "Selector \<Rightarrow> Selector" where
  "negatedSelector a =
     (\<lambda>h n. case a h n of
        Inl e \<Rightarrow> Inl e
      | Inr ra \<Rightarrow> Inr (\<not> ra))"

section \<open>nthChildSelector\<close>

text \<open>
  Go's \<^verbatim>\<open>int\<close> is a two's-complement machine integer of the platform's width
  (32 or 64 bits): a \<open>'w word\<close>, read by \<^const>\<open>sint\<close>. Its \<^verbatim>\<open>/\<close> and \<^verbatim>\<open>%\<close>
  truncate towards zero, wrap around, and panic when the divisor is zero.
\<close>

definition go_div :: "'w::len word \<Rightarrow> 'w word \<Rightarrow> panic + 'w word" where
  "go_div x y =
     (if y = 0 then Inl DivideByZero else Inr (word_of_int (sint x sdiv sint y)))"

definition go_mod :: "'w::len word \<Rightarrow> 'w word \<Rightarrow> panic + 'w word" where
  "go_mod x y =
     (if y = 0 then Inl DivideByZero else Inr (word_of_int (sint x smod sint y)))"

text \<open>
  The search loop \<^verbatim>\<open>for i = 0; i < len(c); i++ { if c[i] == n { break } }\<close>:
  the value of \<open>i\<close> after the loop, or the panic of \<^verbatim>\<open>c[i]\<close>.
\<close>

function nthChild_search :: "ptr list \<Rightarrow> ptr \<Rightarrow> nat \<Rightarrow> panic + nat" where
  "nthChild_search c n i =
     (if i < length c then
        (case go_index c i of
           Inl e \<Rightarrow> Inl e
         | Inr ci \<Rightarrow> if ci = n then Inr i else nthChild_search c n (i + 1))
      else Inr i)"
  by pat_completeness auto
termination
  by (relation "measure (\<lambda>(c, n, i). length c - i)") auto

text \<open>
  In \<^verbatim>\<open>i%a == 0 && i/a >= 0\<close> the quotient is computed only when the remainder
  is zero.
\<close>

definition nthChildSelector :: "'w::len word \<Rightarrow> 'w word \<Rightarrow> bool \<Rightarrow> Selector" where
  "nthChildSelector a b last' =
     (\<lambda>h n. case n of
        None \<Rightarrow> Inl NilDereference
      | Some x \<Rightarrow>
          (case Parent (h x) of
             None \<Rightarrow> Inr False
           | Some parent \<Rightarrow>
               (let c = Child (h parent)
                in case nthChild_search c n 0 of
                     Inl e \<Rightarrow> Inl e
                   | Inr i \<Rightarrow>
                       if i = length c then Inr False
                       else
                         (let i1 = (if last' then of_nat (length c) - of_nat i else of_nat i + 1);
                              i2 = i1 - b
                          in if a = 0 then Inr (i2 = 0)
                             else
                               (case go_mod i2 a of
                                  Inl e \<Rightarrow> Inl e
                                | Inr r \<Rightarrow>
                                    if r = 0 then
                                      (case go_div i2 a of
                                         Inl e \<Rightarrow> Inl e
                                       | Inr q \<Rightarrow> Inr (0 \<le> sint q))
                                    else Inr False)))))"

section \<open>MatchAll\<close>

text \<open>
  The recursion of \<^verbatim>\<open>MatchAll\<close> follows the child pointers of the store, which
  need not form a tree, so it is bounded by fuel: the first argument bounds the
  depth of the recursion, and \<open>None\<close> is running out of it. \<open>MatchAll_children\<close>
  is the loop \<^verbatim>\<open>for _, child := range n.Child\<close> with the slice \<open>result\<close> so far.
\<close>

fun MatchAll :: "nat \<Rightarrow> Selector \<Rightarrow> heap \<Rightarrow> ptr \<Rightarrow> (panic + ptr list) option"
  and MatchAll_children ::
    "nat \<Rightarrow> Selector \<Rightarrow> heap \<Rightarrow> ptr list \<Rightarrow> ptr list \<Rightarrow> (panic + ptr list) option"
where
  "MatchAll 0 s h n = None"
| "MatchAll (Suc k) s h n =
     (case s h n of
        Inl e \<Rightarrow> Some (Inl e)
      | Inr m \<Rightarrow>
          (case n of
             None \<Rightarrow> Some (Inl NilDereference)
           | Some x \<Rightarrow> MatchAll_children k s h (Child (h x)) (if m then [n] else [])))"
| "MatchAll_children k s h [] result = Some (Inr result)"
| "MatchAll_children k s h (child # cs) result =
     (case MatchAll k s h child of
        None \<Rightarrow> None
      | Some (Inl e) \<Rightarrow> Some (Inl e)
      | Some (Inr r) \<Rightarrow> MatchAll_children k s h cs (result @ r))"

text \<open>
  The nodes on which \<^verbatim>\<open>MatchAll\<close> calls the selector, in the order of the calls:
  the same recursion, recording each call \<^verbatim>\<open>s(n)\<close> instead of its result.
\<close>

fun MatchAll_tested :: "nat \<Rightarrow> heap \<Rightarrow> ptr \<Rightarrow> ptr list" where
  "MatchAll_tested 0 h n = []"
| "MatchAll_tested (Suc k) h n =
     n # (case n of
            None \<Rightarrow> []
          | Some x \<Rightarrow> concat (map (MatchAll_tested k h) (Child (h x))))"

section \<open>Compile\<close>

text \<open>
  Modelled from the spec: the parser type and \<^verbatim>\<open>parseSimpleSelectorSequence\<close> are
  not part of the files at hand. The cursor state is the selector source string
  plus a current byte offset (the fields \<^verbatim>\<open>s\<close> and \<^verbatim>\<open>i\<close> that \<^verbatim>\<open>Compile\<close>
  reads); the parse function is a parameter of \<open>Compile\<close>,
  taking the cursor state and returning its result with the state it left.
\<close>

record parser =
  parser_s :: string
  parser_i :: nat

datatype fmt_arg = ArgString string | ArgInt int

text \<open>An error value: the format and the arguments given to \<^verbatim>\<open>fmt.Errorf\<close>.\<close>

datatype error = Errorf string "fmt_arg list"

type_synonym parse_fun = "parser \<Rightarrow> (Selector option \<times> error option) \<times> parser"

definition Compile :: "parse_fun \<Rightarrow> string \<Rightarrow> Selector option \<times> error option" where
  "Compile parseSimpleSelectorSequence sel =
     (let p = \<lparr>parser_s = sel, parser_i = 0\<rparr>;
          ((compiled, err), p') = parseSimpleSelectorSequence p
      in if err \<noteq> None then (None, err)
         else if parser_i p' < length sel then
           (None, Some (Errorf ''parsing %q: %d bytes left over''
                          [ArgString sel, ArgInt (int (length sel) - int (parser_i p'))]))
         else (compiled, None))"

text \<open>
  Modelled from the spec: the predicate that matches every node, with which the
  absent parser starts a sequence and which it takes for \<^verbatim>\<open>*\<close>.
\<close>

definition matchEverything :: Selector where
  "matchEverything = (\<lambda>h n. Inr True)"

text \<open>
  The loops above are unconditional recursion equations; they are unfolded one
  step at a time, never by the simplifier on its own.
\<close>

declare toLowerASCII_loop.simps [simp del]
declare includes_scan.simps [simp del]
declare nthChild_search.simps [simp del]

section \<open>Notions of the specification\<close>

text \<open>ASCII case folding of one byte and equality of two strings up to ASCII case.\<close>

definition lowerASCII :: "char \<Rightarrow> char" where
  "lowerASCII c = (if isUpperASCII c then lowerByte c else c)"

definition eqFoldASCII :: "string \<Rightarrow> string \<Rightarrow> bool" where
  "eqFoldASCII x y = (map lowerASCII x = map lowerASCII y)"

text \<open>
  Splitting a value on whitespace: the pieces between the whitespace bytes, cut at
  each of them (two adjacent whitespace bytes enclose an empty piece).
\<close>

fun split_ws :: "string \<Rightarrow> string list" where
  "split_ws [] = [[]]"
| "split_ws (c # s) =
     (if c \<in> set whitespace then [] # split_ws s
      else (case split_ws s of [] \<Rightarrow> [[c]] | t # ts \<Rightarrow> (c # t) # ts))"

text \<open>
  A tree of node addresses, and what it is for a store to hold it: the child
  slice of every node of the tree lists the roots of its subtrees, in order.
\<close>

datatype tree = Tree addr "tree list"

fun root :: "tree \<Rightarrow> addr" where
  "root (Tree x ts) = x"

fun is_tree :: "heap \<Rightarrow> tree \<Rightarrow> bool" where
  "is_tree h (Tree x ts) =
     (Child (h x) = map (\<lambda>t. Some (root t)) ts \<and> (\<forall>t\<in>set ts. is_tree h t))"

text \<open>The pre-order listing: a node first, then the subtree of each child, left to right.\<close>

fun preorder :: "tree \<Rightarrow> addr list" where
  "preorder (Tree x ts) = x # concat (map preorder ts)"

fun height :: "tree \<Rightarrow> nat" where
  "height (Tree x ts) = Suc (foldr max (map height ts) 0)"

text \<open>All subtrees of a tree, and the proper descendants of its root.\<close>

fun subtrees :: "tree \<Rightarrow> tree list" where
  "subtrees (Tree x ts) = Tree x ts # concat (map subtrees ts)"

fun descendants :: "tree \<Rightarrow> addr list" where
  "descendants (Tree x ts) = concat (map preorder ts)"

text \<open>
  The predicates that compilation can produce: those built by the constructors
  of the package, for the width \<open>'w\<close> of \<^verbatim>\<open>int\<close>.
\<close>

inductive constructed :: "'w::len itself \<Rightarrow> Selector \<Rightarrow> bool" for w :: "'w::len itself" where
  c_everything: "constructed w matchEverything"
| c_type: "constructed w (typeSelector tag)"
| c_exists: "constructed w (attributeExistsSelector key)"
| c_equals: "constructed w (attributeEqualsSelector key val)"
| c_includes: "constructed w (attributeIncludesSelector key val)"
| c_dashmatch: "constructed w (attributeDashmatchSelector key val)"
| c_prefix: "constructed w (attributePrefixSelector key val)"
| c_suffix: "constructed w (attributeSuffixSelector key val)"
| c_substring: "constructed w (attributeSubstringSelector key val)"
| c_intersection: "constructed w p \<Longrightarrow> constructed w q \<Longrightarrow> constructed w (intersectionSelector p q)"
| c_negated: "constructed w p \<Longrightarrow> constructed w (negatedSelector p)"
| c_nthChild: "constructed w (nthChildSelector (a :: 'w word) b last')"

section \<open>Example documents\<close>

definition leafNode :: Node where
  "leafNode = \<lparr>Parent = None, Child = [], Type = TextNode, Data = [], Attr = []\<rparr>"

definition element :: "ptr \<Rightarrow> ptr list \<Rightarrow> string \<Rightarrow> Attribute list \<Rightarrow> Node" where
  "element parent children tag attrs =
     \<lparr>Parent = parent, Child = children, Type = ElementNode, Data = tag, Attr = attrs\<rparr>"

text \<open>\<^verbatim>\<open><ol><li id=1><li id=2><li id=3></ol>\<close>\<close>

definition olDoc :: heap where
  "olDoc = (\<lambda>_. leafNode)
     (0 := element None [Some 1, Some 2, Some 3] ''ol'' [],
      1 := element (Some 0) [] ''li'' [\<lparr>Key = ''id'', Val = ''1''\<rparr>],
      2 := element (Some 0) [] ''li'' [\<lparr>Key = ''id'', Val = ''2''\<rparr>],
      3 := element (Some 0) [] ''li'' [\<lparr>Key = ''id'', Val = ''3''\<rparr>])"

definition olTree :: tree where
  "olTree = Tree 0 [Tree 1 [], Tree 2 [], Tree 3 []]"

text \<open>
  \<^verbatim>\<open><html><head></head><body></body></html>\<close> under its document node, and the
  tree of its four nodes.
\<close>

definition htmlDoc :: heap where
  "htmlDoc = (\<lambda>_. leafNode)
     (0 := \<lparr>Parent = None, Child = [Some 1], Type = DocumentNode, Data = [], Attr = []\<rparr>,
      1 := element (Some 0) [Some 2, Some 3] ''html'' [],
      2 := element (Some 1) [] ''head'' [],
      3 := element (Some 1) [] ''body'' [])"

definition htmlTree :: tree where
  "htmlTree = Tree 0 [Tree 1 [Tree 2 [], Tree 3 []]]"

text \<open>\<^verbatim>\<open><ol><li id=1><li id=2><li id=3><li id=4></ol>\<close>\<close>

definition ol4Doc :: heap where
  "ol4Doc = (\<lambda>_. leafNode)
     (0 := element None [Some 1, Some 2, Some 3, Some 4] ''ol'' [],
      1 := element (Some 0) [] ''li'' [\<lparr>Key = ''id'', Val = ''1''\<rparr>],
      2 := element (Some 0) [] ''li'' [\<lparr>Key = ''id'', Val = ''2''\<rparr>],
      3 := element (Some 0) [] ''li'' [\<lparr>Key = ''id'', Val = ''3''\<rparr>],
      4 := element (Some 0) [] ''li'' [\<lparr>Key = ''id'', Val = ''4''\<rparr>])"

text \<open>\<^verbatim>\<open>li:nth-child(an+b)\<close> and \<^verbatim>\<open>li:nth-last-child(an+b)\<close>, with a 64-bit \<^verbatim>\<open>int\<close>.\<close>

definition li_nth :: "64 word \<Rightarrow> 64 word \<Rightarrow> bool \<Rightarrow> Selector" where
  "li_nth a b last' = intersectionSelector (typeSelector ''li'') (nthChildSelector a b last')"

definition oneChildDoc :: heap where
  "oneChildDoc = (\<lambda>_. leafNode)
     (0 := element None [Some 1] ''ol'' [],
      1 := element (Some 0) [] ''li'' [])"

text \<open>\<^verbatim>\<open>li:nth-child(odd)\<close>, with a 64-bit \<^verbatim>\<open>int\<close>.\<close>

definition liOdd :: Selector where
  "liOdd = intersectionSelector (typeSelector ''li'') (nthChildSelector (2 :: 64 word) 1 False)"

text \<open>A store whose every node is an element with the given tag and attributes.\<close>

definition oneNode :: "string \<Rightarrow> Attribute list \<Rightarrow> heap" where
  "oneNode tag attrs = (\<lambda>_. element None [] tag attrs)"

text \<open>
  A parse function for the examples: it takes the bytes up to the first space as
  a tag name.
\<close>

definition tagParser :: parse_fun where
  "tagParser p =
     (let name = takeWhile (\<lambda>c. c \<noteq> CHR '' '') (drop (parser_i p) (parser_s p))
      in ((Some (typeSelector name), None), p\<lparr>parser_i := parser_i p + length name\<rparr>))"

text \<open>
  The list of \<^verbatim>\<open>li\<close> elements with a fourth one that names the list as its
  parent without being among its children.
\<close>

definition orphanDoc :: heap where
  "orphanDoc = olDoc(4 := element (Some 0) [] ''li'' [])"

text \<open>A \<^verbatim>\<open>div\<close> with a \<^verbatim>\<open>title\<close> attribute whose only child, a \<^verbatim>\<open>p\<close>, has none.\<close>

definition titledDoc :: heap where
  "titledDoc = (\<lambda>_. leafNode)
     (0 := element None [Some 1] ''div'' [\<lparr>Key = ''title'', Val = ''foo''\<rparr>],
      1 := element (Some 0) [] ''p'' [\<lparr>Key = ''id'', Val = ''x''\<rparr>])"

definition attr :: "string \<Rightarrow> string \<Rightarrow> Attribute" where
  "attr k v = \<lparr>Key = k, Val = v\<rparr>"

section \<open>The tests of the package\<close>

text \<open>
  The model computes what \<^verbatim>\<open>selector_test.go\<close> expects: the eight positional
  tests, and the attribute operators and the case-sensitive class of the others.
\<close>

lemma selector_tests_nth_child:
  "MatchAll 2 (li_nth 2 1 False) olDoc (Some 0) = Some (Inr [Some 1, Some 3])"
  "MatchAll 2 (li_nth 2 0 False) olDoc (Some 0) = Some (Inr [Some 2])"
  "MatchAll 2 (li_nth (- 1) 2 False) olDoc (Some 0) = Some (Inr [Some 1, Some 2])"
  "MatchAll 2 (li_nth 3 1 False) olDoc (Some 0) = Some (Inr [Some 1])"
  "MatchAll 2 (li_nth 2 1 True) ol4Doc (Some 0) = Some (Inr [Some 2, Some 4])"
  "MatchAll 2 (li_nth 2 0 True) ol4Doc (Some 0) = Some (Inr [Some 1, Some 3])"
  "MatchAll 2 (li_nth (- 1) 2 True) ol4Doc (Some 0) = Some (Inr [Some 3, Some 4])"
  "MatchAll 2 (li_nth 3 1 True) ol4Doc (Some 0) = Some (Inr [Some 1, Some 4])"
  by code_simp+

lemma selector_tests_attributes:
  "attributeIncludesSelector ''title'' ''foo''
     (oneNode ''p'' [attr ''title'' ''tot foo bar'']) (Some 0) = Inr True"
  "attributePrefixSelector ''title'' ''foo''
     (oneNode ''p'' [attr ''title'' ''foobar'']) (Some 0) = Inr True"
  "attributePrefixSelector ''title'' ''foo''
     (oneNode ''p'' [attr ''title'' ''barfoo'']) (Some 0) = Inr False"
  "attributeSuffixSelector ''title'' ''bar''
     (oneNode ''p'' [attr ''title'' ''foobar'']) (Some 0) = Inr True"
  "attributeSuffixSelector ''title'' ''bar''
     (oneNode ''p'' [attr ''title'' ''barfoo'']) (Some 0) = Inr False"
  "attributeSubstringSelector ''title'' ''bar''
     (oneNode ''p'' [attr ''title'' ''foobarufoo'']) (Some 0) = Inr True"
  "intersectionSelector (typeSelector ''div'') (attributeIncludesSelector ''class'' ''teST'')
     (oneNode ''div'' [attr ''class'' ''test'']) (Some 0) = Inr False"
  by code_simp+

section \<open>toLowerASCII folds the ASCII capitals\<close>

lemma toLowerASCII_loop_inv:
  "i \<le> length s \<Longrightarrow>
   (case b of None \<Rightarrow> \<forall>j<i. \<not> isUpperASCII (s ! j)
            | Some b0 \<Rightarrow> b0 = map lowerASCII (take i s) @ drop i s) \<Longrightarrow>
   (case toLowerASCII_loop s i b of None \<Rightarrow> s | Some r \<Rightarrow> r) = map lowerASCII s"
proof (induction s i b rule: toLowerASCII_loop.induct)
  case (1 s i b)
  show ?case
  proof (cases "i < length s")
    case False
    with "1.prems" have il: "i = length s" by simp
    have stop: "toLowerASCII_loop s i b = b"
      using False by (subst toLowerASCII_loop.simps) simp
    show ?thesis
    proof (cases b)
      case None
      with "1.prems" il have "\<forall>j<length s. \<not> isUpperASCII (s ! j)" by simp
      then have "map lowerASCII s = s"
        by (simp add: lowerASCII_def list_eq_iff_nth_eq)
      with None show ?thesis unfolding stop by simp
    next
      case (Some b0)
      with "1.prems" il show ?thesis unfolding stop by simp
    qed
  next
    case True
    note lt = True
    have step: "take (Suc i) s = take i s @ [s ! i]"
      using lt by (simp add: take_Suc_conv_app_nth)
    have dr: "drop i s = s ! i # drop (Suc i) s"
      using lt by (simp add: Cons_nth_drop_Suc)
    show ?thesis
    proof (cases "isUpperASCII (s ! i)")
      case True
      define b' where "b' = (case b of None \<Rightarrow> s | Some b0 \<Rightarrow> b0)"
      have b'eq: "b' = map lowerASCII (take i s) @ drop i s"
      proof (cases b)
        case None
        with "1.prems" have "\<forall>j<i. \<not> isUpperASCII (s ! j)" by simp
        then have "map lowerASCII (take i s) = take i s"
          using lt by (simp add: lowerASCII_def list_eq_iff_nth_eq)
        with None show ?thesis by (simp add: b'_def)
      next
        case (Some b0)
        with "1.prems" show ?thesis by (simp add: b'_def)
      qed
      have upd: "b'[i := lowerByte (s ! i)] = map lowerASCII (take (Suc i) s) @ drop (Suc i) s"
        using lt True by (simp add: b'eq step dr list_update_append lowerASCII_def)
      have "(case toLowerASCII_loop s (i + 1) (Some (b'[i := lowerByte (s ! i)])) of None \<Rightarrow> s | Some r \<Rightarrow> r)
            = map lowerASCII s"
        using "1.IH"(1)[OF lt True b'_def] lt upd by simp
      moreover have "toLowerASCII_loop s i b
            = toLowerASCII_loop s (i + 1) (Some (b'[i := lowerByte (s ! i)]))"
        using lt True by (subst toLowerASCII_loop.simps) (simp add: b'_def Let_def)
      ultimately show ?thesis by (simp only:)
    next
      case False
      have "(case b of None \<Rightarrow> \<forall>j<i + 1. \<not> isUpperASCII (s ! j)
            | Some b0 \<Rightarrow> b0 = map lowerASCII (take (i + 1) s) @ drop (i + 1) s)"
      proof (cases b)
        case None
        with "1.prems" False show ?thesis by (auto simp: less_Suc_eq)
      next
        case (Some b0)
        with "1.prems" False show ?thesis by (simp add: step dr lowerASCII_def)
      qed
      then have "(case toLowerASCII_loop s (i + 1) b of None \<Rightarrow> s | Some r \<Rightarrow> r) = map lowerASCII s"
        using "1.IH"(2)[OF lt False] lt by simp
      moreover have "toLowerASCII_loop s i b = toLowerASCII_loop s (i + 1) b"
        using lt False by (subst toLowerASCII_loop.simps) simp
      ultimately show ?thesis by (simp only:)
    qed
  qed
qed

lemma toLowerASCII_eq: "toLowerASCII s = map lowerASCII s"
  unfolding toLowerASCII_def using toLowerASCII_loop_inv[of 0 s None] by simp

section \<open>The attribute loops\<close>

lemma IndexAny_less: "IndexAny s chars = Some i \<Longrightarrow> i < length s"
  by (induction s arbitrary: i) (auto split: if_splits option.splits)

lemma split_ws_not_Nil: "split_ws s \<noteq> []"
  by (induction s) (simp_all split: list.split)

lemma set_butlast_last: "xs \<noteq> [] \<Longrightarrow> set xs = insert (last xs) (set (butlast xs))"
proof -
  assume "xs \<noteq> []"
  then have "xs = butlast xs @ [last xs]" by simp
  then have "set xs = set (butlast xs @ [last xs])" by simp
  then show ?thesis by simp
qed

lemma split_ws_IndexAny_None: "IndexAny s whitespace = None \<Longrightarrow> split_ws s = [s]"
  by (induction s) (auto split: if_splits option.splits)

lemma split_ws_IndexAny_Some:
  "IndexAny s whitespace = Some i \<Longrightarrow> split_ws s = take i s # split_ws (drop (Suc i) s)"
  by (induction s arbitrary: i) (auto split: if_splits option.splits)

lemma split_ws_no_whitespace: "t \<in> set (split_ws s) \<Longrightarrow> set t \<inter> set whitespace = {}"
proof (induction s arbitrary: t)
  case Nil
  then show ?case by simp
next
  case (Cons c s)
  show ?case
  proof (cases "c \<in> set whitespace")
    case True
    with Cons show ?thesis by auto
  next
    case False
    obtain u us where sp: "split_ws s = u # us"
      using split_ws_not_Nil by (cases "split_ws s") auto
    have "set u \<inter> set whitespace = {}" using Cons.IH[of u] sp by simp
    moreover have "t = c # u \<or> t \<in> set us" using Cons.prems False sp by simp
    ultimately show ?thesis using False Cons.IH[of t] sp by auto
  qed
qed

lemma includes_scan_eq:
  "includes_scan s val =
     Inr (if val \<in> set (butlast (split_ws s)) then Some True
          else if last (split_ws s) = [] then None
          else Some (last (split_ws s) = val))"
proof (induction s val rule: includes_scan.induct)
  case (1 s val)
  show ?case
  proof (cases "s = []")
    case True
    then show ?thesis by (simp add: includes_scan.simps[of "[]" val])
  next
    case False
    note ne = False
    show ?thesis
    proof (cases "IndexAny s whitespace")
      case None
      then show ?thesis using ne
        by (simp add: split_ws_IndexAny_None includes_scan.simps[of s val])
    next
      case (Some i)
      have il: "i < length s" using Some by (rule IndexAny_less)
      have st: "go_slice_to s i = Inr (take i s)"
        using il by (simp add: go_slice_to_def)
      have sf: "go_slice_from s (i + 1) = Inr (drop (i + 1) s)"
        using il by (simp add: go_slice_from_def)
      have sp: "split_ws s = take i s # split_ws (drop (Suc i) s)"
        using Some by (rule split_ws_IndexAny_Some)
      show ?thesis
      proof (cases "take i s = val")
        case True
        then show ?thesis using ne Some sp st
          by (simp add: split_ws_not_Nil includes_scan.simps[of s val])
      next
        case False
        have "includes_scan s val = includes_scan (drop (i + 1) s) val"
          using ne Some False st sf by (simp add: includes_scan.simps[of s val])
        also note "1.IH"[OF ne Some st False sf]
        finally show ?thesis using sp False by (simp add: split_ws_not_Nil)
      qed
    qed
  qed
qed

lemma includes_scan_nonempty:
  assumes "val \<noteq> []"
  shows "(includes_scan s val = Inr (Some True)) = (val \<in> set (split_ws s))"
proof -
  have "set (split_ws s) = insert (last (split_ws s)) (set (butlast (split_ws s)))"
    using split_ws_not_Nil by (rule set_butlast_last)
  then show ?thesis using assms by (auto simp: includes_scan_eq)
qed

lemma includes_scan_whitespace:
  assumes "set val \<inter> set whitespace \<noteq> {}"
  shows "includes_scan s val = Inr None \<or> includes_scan s val = Inr (Some False)"
proof -
  have st: "set (split_ws s) = insert (last (split_ws s)) (set (butlast (split_ws s)))"
    using split_ws_not_Nil by (rule set_butlast_last)
  have "val \<notin> set (split_ws s)"
    using assms split_ws_no_whitespace by blast
  then have "val \<notin> set (butlast (split_ws s))" and "last (split_ws s) \<noteq> val"
    using st by auto
  then show ?thesis by (simp add: includes_scan_eq)
qed

lemma attributeExists_loop_no_key:
  "\<forall>a\<in>set as. Key a \<noteq> key \<Longrightarrow> attributeExists_loop key as = False"
  by (induction as) auto
lemma attributeEquals_loop_no_key:
  "\<forall>a\<in>set as. Key a \<noteq> key \<Longrightarrow> attributeEquals_loop key val as = False"
  by (induction as) auto
lemma attributeIncludes_loop_no_key:
  "\<forall>a\<in>set as. Key a \<noteq> key \<Longrightarrow> attributeIncludes_loop key val as = Inr False"
  by (induction as) auto
lemma attributeDashmatch_loop_no_key:
  "\<forall>a\<in>set as. Key a \<noteq> key \<Longrightarrow> attributeDashmatch_loop key val as = Inr False"
  by (induction as) auto
lemma attributePrefix_loop_no_key:
  "\<forall>a\<in>set as. Key a \<noteq> key \<Longrightarrow> attributePrefix_loop key val as = False"
  by (induction as) auto
lemma attributeSuffix_loop_no_key:
  "\<forall>a\<in>set as. Key a \<noteq> key \<Longrightarrow> attributeSuffix_loop key val as = False"
  by (induction as) auto
lemma attributeSubstring_loop_no_key:
  "\<forall>a\<in>set as. Key a \<noteq> key \<Longrightarrow> attributeSubstring_loop key val as = False"
  by (induction as) auto

lemma attributeIncludes_loop_whitespace:
  "set val \<inter> set whitespace \<noteq> {} \<Longrightarrow> attributeIncludes_loop key val as = Inr False"
proof (induction as)
  case Nil
  then show ?case by simp
next
  case (Cons a as)
  have "includes_scan (Val a) val = Inr None \<or> includes_scan (Val a) val = Inr (Some False)"
    using Cons.prems by (rule includes_scan_whitespace)
  then show ?case using Cons by auto
qed

lemma attributeIncludes_loop_single:
  assumes "val \<noteq> []" and "length (filter (\<lambda>a. Key a = key) as) \<le> 1"
  shows "attributeIncludes_loop key val as
         = Inr (\<exists>a\<in>set as. Key a = key \<and> val \<in> set (split_ws (Val a)))"
  using assms(2)
proof (induction as)
  case Nil
  then show ?case by simp
next
  case (Cons a as)
  show ?case
  proof (cases "Key a = key")
    case False
    then show ?thesis using Cons by simp
  next
    case True
    with Cons.prems have "filter (\<lambda>a. Key a = key) as = []" by simp
    then have nk: "\<forall>a\<in>set as. Key a \<noteq> key" by (simp add: filter_empty_conv)
    then have rest: "attributeIncludes_loop key val as = Inr False"
      by (rule attributeIncludes_loop_no_key)
    obtain r where r: "includes_scan (Val a) val = Inr r"
      using includes_scan_eq by blast
    have "attributeIncludes_loop key val (a # as) = Inr (r = Some True)"
      using True rest r by (cases r) auto
    moreover have "(r = Some True) = (val \<in> set (split_ws (Val a)))"
      using includes_scan_nonempty[OF assms(1), of "Val a"] r by simp
    ultimately show ?thesis using True nk by auto
  qed
qed

lemma dashmatch_cmp:
  "(length val < length v \<and> take (length val) v = val \<and> v ! length val = CHR ''-'')
   = (\<exists>rest. v = val @ CHR ''-'' # rest)" (is "?L = ?R")
proof
  assume l: ?L
  have "v = take (length val) v @ drop (length val) v" by simp
  also have "drop (length val) v = v ! length val # drop (Suc (length val)) v"
    using l Cons_nth_drop_Suc[of "length val" v] by simp
  finally have "v = val @ CHR ''-'' # drop (Suc (length val)) v" using l by simp
  then show ?R by blast
next
  assume ?R
  then obtain rest where "v = val @ CHR ''-'' # rest" by blast
  then show ?L by simp
qed

lemma attributeDashmatch_loop_first:
  "attributeDashmatch_loop key val as
   = Inr (case find (\<lambda>a. Key a = key) as of None \<Rightarrow> False
          | Some a \<Rightarrow> Val a = val \<or> (\<exists>rest. Val a = val @ CHR ''-'' # rest))"
proof (induction as)
  case Nil
  then show ?case by simp
next
  case (Cons a as)
  show ?case
  proof (cases "Key a = key")
    case False
    then show ?thesis using Cons by simp
  next
    case True
    have "attributeDashmatch_loop key val (a # as)
          = Inr (Val a = val \<or> (length val < length (Val a) \<and> take (length val) (Val a) = val
               \<and> Val a ! length val = CHR ''-''))"
      using True by (simp add: not_le go_slice_to_def go_index_def)
    then show ?thesis using True by (simp add: dashmatch_cmp)
  qed
qed


section \<open>The search loop and the machine arithmetic of nthChildSelector\<close>

lemma nthChild_search_step:
  "i < length c \<Longrightarrow> nthChild_search c n i
     = (if c ! i = n then Inr i else nthChild_search c n (i + 1))"
  by (subst nthChild_search.simps) (simp add: go_index_def)

lemma nthChild_search_stop: "\<not> i < length c \<Longrightarrow> nthChild_search c n i = Inr i"
  by (subst nthChild_search.simps) simp

lemma nthChild_search_total:
  "i \<le> length c \<Longrightarrow> \<exists>j. nthChild_search c n i = Inr j \<and> j \<le> length c"
proof (induction c n i rule: nthChild_search.induct)
  case (1 c n i)
  show ?case
  proof (cases "i < length c")
    case False
    then show ?thesis using "1.prems" by (simp add: nthChild_search_stop)
  next
    case True
    have gi: "go_index c i = Inr (c ! i)" using True by (simp add: go_index_def)
    show ?thesis
    proof (cases "c ! i = n")
      case eq: True
      then show ?thesis using True by (simp add: nthChild_search_step)
    next
      case ne: False
      have "\<exists>j. nthChild_search c n (i + 1) = Inr j \<and> j \<le> length c"
        using "1.IH"[OF True gi ne] True by simp
      then show ?thesis using True ne by (simp add: nthChild_search_step)
    qed
  qed
qed

lemma nthChild_search_end:
  "i \<le> length c \<Longrightarrow> n \<notin> set (drop i c) \<Longrightarrow> nthChild_search c n i = Inr (length c)"
proof (induction c n i rule: nthChild_search.induct)
  case (1 c n i)
  show ?case
  proof (cases "i < length c")
    case False
    then show ?thesis using "1.prems" by (simp add: nthChild_search_stop)
  next
    case True
    have gi: "go_index c i = Inr (c ! i)" using True by (simp add: go_index_def)
    have dr: "drop i c = c ! i # drop (Suc i) c" using True by (simp add: Cons_nth_drop_Suc)
    with "1.prems" have ne: "c ! i \<noteq> n" and rest: "n \<notin> set (drop (i + 1) c)" by auto
    have "nthChild_search c n (i + 1) = Inr (length c)"
      using "1.IH"[OF True gi ne] True rest by simp
    then show ?thesis using True ne by (simp add: nthChild_search_step)
  qed
qed

lemma nthChild_search_found:
  "i \<le> pos \<Longrightarrow> pos < length c \<Longrightarrow> c ! pos = n \<Longrightarrow> \<forall>j. i \<le> j \<and> j < pos \<longrightarrow> c ! j \<noteq> n
   \<Longrightarrow> nthChild_search c n i = Inr pos"
proof (induction c n i rule: nthChild_search.induct)
  case (1 c n i)
  have lt: "i < length c" using "1.prems" by simp
  have gi: "go_index c i = Inr (c ! i)" using lt by (simp add: go_index_def)
  show ?case
  proof (cases "c ! i = n")
    case True
    then have "i = pos" using "1.prems" by (metis le_neq_implies_less order_refl)
    then show ?thesis using lt True by (simp add: nthChild_search_step)
  next
    case False
    then have "i \<noteq> pos" using "1.prems" by auto
    then have "i + 1 \<le> pos" using "1.prems" by simp
    then have "nthChild_search c n (i + 1) = Inr pos"
      using "1.IH"[OF lt gi False] "1.prems" by simp
    then show ?thesis using lt False by (simp add: nthChild_search_step)
  qed
qed

lemma sint_of_nat_small:
  "k < 2 ^ (LENGTH('w::len) - 1) \<Longrightarrow> sint (of_nat k :: 'w word) = int k"
proof -
  assume k: "k < 2 ^ (LENGTH('w) - 1)"
  have "sint (of_nat k :: 'w word) = signed_take_bit (LENGTH('w) - 1) (int k)"
    by (simp add: signed_of_nat)
  also have "\<dots> = int k"
  proof (rule signed_take_bit_int_eq_self)
    show "- (2 ^ (LENGTH('w) - 1)) \<le> int k" by (smt (verit) of_nat_0_le_iff zero_le_power)
    have "int k < int (2 ^ (LENGTH('w) - 1))" using k by (simp only: of_nat_less_iff)
    then show "int k < 2 ^ (LENGTH('w) - 1)" by simp
  qed
  finally show ?thesis .
qed

lemma sint_minus_no_overflow:
  fixes x y :: "'w::len word"
  assumes "- (2 ^ (LENGTH('w) - 1)) \<le> sint x - sint y" "sint x - sint y < 2 ^ (LENGTH('w) - 1)"
  shows "sint (x - y) = sint x - sint y"
proof -
  have "sint (x - y) = signed_take_bit (LENGTH('w) - 1) (sint x - sint y)"
    by (simp add: sint_word_ariths)
  then show ?thesis using assms by (simp add: signed_take_bit_int_eq_self)
qed

lemma smod_zero_iff: "(k::int) smod l = 0 \<longleftrightarrow> l dvd k" if "l \<noteq> 0"
proof -
  have "k smod l = 0 \<longleftrightarrow> k = 0 \<or> \<bar>k\<bar> mod \<bar>l\<bar> = 0"
    by (auto simp: smod_int_alt_def sgn_if)
  also have "\<dots> \<longleftrightarrow> \<bar>l\<bar> dvd \<bar>k\<bar>" by auto
  finally show ?thesis by simp
qed

lemma smod_abs_less: "l \<noteq> 0 \<Longrightarrow> \<bar>(k::int) smod l\<bar> < \<bar>l\<bar>"
  by (simp add: smod_int_alt_def abs_mult abs_sgn_eq)

lemma sint_abs_le: "\<bar>sint (x :: 'w::len word)\<bar> \<le> 2 ^ (LENGTH('w) - 1)"
  using sint_ge[of x] sint_lt[of x] by linarith

lemma go_mod_zero_iff:
  fixes x y :: "'w::len word"
  assumes "y \<noteq> 0"
  shows "\<exists>r. go_mod x y = Inr r \<and> (r = 0 \<longleftrightarrow> sint y dvd sint x)"
proof -
  have ny: "sint y \<noteq> 0" using assms by (simp add: signed_eq_0_iff)
  let ?r = "sint x smod sint y"
  have "\<bar>?r\<bar> < \<bar>sint y\<bar>" using ny by (rule smod_abs_less)
  also have "\<dots> \<le> 2 ^ (LENGTH('w) - 1)" by (rule sint_abs_le)
  finally have b: "\<bar>?r\<bar> < 2 ^ (LENGTH('w) - 1)" .
  then have "sint (word_of_int ?r :: 'w word) = ?r"
    by (simp add: signed_of_int signed_take_bit_int_eq_self)
  then have "(word_of_int ?r :: 'w word) = 0 \<longleftrightarrow> ?r = 0"
    by (metis signed_eq_0_iff)
  then have "(word_of_int ?r :: 'w word) = 0 \<longleftrightarrow> sint y dvd sint x"
    using ny by (simp add: smod_zero_iff)
  moreover have "go_mod x y = Inr (word_of_int ?r)"
    using assms by (simp add: go_mod_def)
  ultimately show ?thesis by blast
qed

lemma sdiv_dvd_eq: "(l::int) dvd k \<Longrightarrow> k sdiv l = k div l"
  by (simp add: signed_divide_int_eq_divide_int)

lemma abs_div_le: "(l::int) dvd k \<Longrightarrow> \<bar>k div l\<bar> \<le> \<bar>k\<bar>"
proof (cases "l = 0")
  case True
  then show ?thesis by simp
next
  case False
  assume "l dvd k"
  then obtain m where k: "k = l * m" by (rule dvdE)
  have "1 \<le> \<bar>l\<bar>" using False by simp
  then have "\<bar>m\<bar> \<le> \<bar>l\<bar> * \<bar>m\<bar>" by (simp add: mult_le_cancel_right1)
  then show ?thesis using False k by (simp add: abs_mult)
qed

lemma go_div_dvd:
  fixes x y :: "'w::len word"
  assumes "sint y dvd sint x" "y \<noteq> 0" "- (2 ^ (LENGTH('w) - 1)) < sint x"
  shows "\<exists>q. go_div x y = Inr q \<and> sint q = sint x div sint y"
proof -
  let ?q = "sint x div sint y"
  have "\<bar>?q\<bar> \<le> \<bar>sint x\<bar>"
    using assms(1) by (rule abs_div_le)
  moreover have "\<bar>sint x\<bar> < 2 ^ (LENGTH('w) - 1)"
    using assms(3) sint_lt[of x] by linarith
  ultimately have "- (2 ^ (LENGTH('w) - 1)) \<le> ?q" "?q < 2 ^ (LENGTH('w) - 1)" by linarith+
  then have "sint (word_of_int ?q :: 'w word) = ?q"
    by (simp add: signed_of_int signed_take_bit_int_eq_self)
  moreover have "go_div x y = Inr (word_of_int ?q)"
    using assms(1,2) by (simp add: go_div_def sdiv_dvd_eq)
  ultimately show ?thesis by blast
qed

lemma go_div_total:
  "y \<noteq> 0 \<Longrightarrow> \<exists>q. go_div x y = Inr q"
  by (simp add: go_div_def)

section \<open>The positional predicate\<close>

text \<open>
  C1 (amended). Let \<open>a\<close>, \<open>b\<close> be machine integers of the width \<open>w\<close> of \<^verbatim>\<open>int\<close>, and
  let the node \<open>n\<close> have a parent with fewer than \<open>2 ^ (w - 1)\<close> children (every Go
  slice has) in whose child list it occurs at the 1-based position \<open>p\<close>, its first
  occurrence. Let \<open>q\<close> be the integer
  \<open>(if last then childCount - p + 1 else p) - b\<close>. Provided \<open>q\<close> lies in the range
  of \<^verbatim>\<open>int\<close>, that is the subtraction does not wrap around, the predicate returns
  true if and only if: when \<open>a = 0\<close>, \<open>q = 0\<close>; when \<open>a \<noteq> 0\<close>, \<open>a\<close> divides \<open>q\<close> and
  the quotient is non-negative.
\<close>

theorem nthChildSelector_formula:
  fixes a b :: "'w::len word"
  assumes par: "Parent (h n) = Some parent"
    and p1: "1 \<le> p" and p2: "p \<le> length (Child (h parent))"
    and at: "Child (h parent) ! (p - 1) = Some n"
    and first: "Some n \<notin> set (take (p - 1) (Child (h parent)))"
    and len: "length (Child (h parent)) < 2 ^ (LENGTH('w) - 1)"
    and q: "q = (if last' then int (length (Child (h parent))) - int p + 1 else int p) - sint b"
    and lo: "- (2 ^ (LENGTH('w) - 1)) \<le> q" and hi: "q < 2 ^ (LENGTH('w) - 1)"
  shows "nthChildSelector a b last' h (Some n)
         = Inr (if a = 0 then q = 0 else sint a dvd q \<and> 0 \<le> q div sint a)"
proof -
  let ?c = "Child (h parent)"
  define pos where "pos = p - 1"
  have pos: "pos < length ?c" "?c ! pos = Some n" using p1 p2 at by (simp_all add: pos_def)
  have nf: "\<forall>j. 0 \<le> j \<and> j < pos \<longrightarrow> ?c ! j \<noteq> Some n"
  proof (intro allI impI)
    fix j assume j: "0 \<le> j \<and> j < pos"
    then have "j < length (take pos ?c)" using pos(1) by simp
    then have "take pos ?c ! j \<in> set (take pos ?c)" by (rule nth_mem)
    then have "?c ! j \<in> set (take pos ?c)" using j by simp
    then show "?c ! j \<noteq> Some n" using first by (auto simp: pos_def)
  qed
  have srch: "nthChild_search ?c (Some n) 0 = Inr pos"
    using pos nf by (intro nthChild_search_found) simp_all
  define i1 :: "'w word" where
    "i1 = (if last' then of_nat (length ?c) - of_nat pos else of_nat pos + 1)"
  define P where "P = (if last' then int (length ?c) - int p + 1 else int p)"
  have i1_nat: "i1 = of_nat (if last' then length ?c - pos else pos + 1)"
    using pos(1) by (simp add: i1_def)
  have "(if last' then length ?c - pos else pos + 1) < 2 ^ (LENGTH('w) - 1)"
    using pos(1) len by auto
  then have "sint i1 = int (if last' then length ?c - pos else pos + 1)"
    unfolding i1_nat by (rule sint_of_nat_small)
  also have "\<dots> = P" using p1 p2 by (auto simp: P_def pos_def)
  finally have si1: "sint i1 = P" .
  have P1: "1 \<le> P" using p1 p2 by (auto simp: P_def)
  have qP: "q = P - sint b" using q by (simp add: P_def)
  have si2: "sint (i1 - b) = q"
    using lo hi by (simp add: qP si1 sint_minus_no_overflow)
  have res: "nthChildSelector a b last' h (Some n)
        = (if a = 0 then Inr (i1 - b = 0)
           else (case go_mod (i1 - b) a of
                   Inl e \<Rightarrow> Inl e
                 | Inr r \<Rightarrow>
                     if r = 0 then
                       (case go_div (i1 - b) a of
                          Inl e \<Rightarrow> Inl e
                        | Inr d \<Rightarrow> Inr (0 \<le> sint d))
                     else Inr False))"
    unfolding i1_def using par pos(1) srch by (simp add: nthChildSelector_def Let_def)
  have z: "(i1 - b = 0) = (q = 0)"
    using si2 by (metis signed_eq_0_iff)
  have qlo: "- (2 ^ (LENGTH('w) - 1)) < q"
  proof -
    have "sint b < 2 ^ (LENGTH('w) - 1)" by (rule sint_lt)
    then show ?thesis using P1 qP by linarith
  qed
  show ?thesis
  proof (cases "a = 0")
    case True
    then show ?thesis unfolding res using z by simp
  next
    case False
    obtain r where r: "go_mod (i1 - b) a = Inr r" "(r = 0) = (sint a dvd q)"
      using go_mod_zero_iff[OF False, of "i1 - b"] si2 by auto
    show ?thesis
    proof (cases "sint a dvd q")
      case nd: False
      then show ?thesis unfolding res using False r by simp
    next
      case dv: True
      obtain d where d: "go_div (i1 - b) a = Inr d" "sint d = q div sint a"
        using go_div_dvd[of a "i1 - b"] dv False qlo si2 by auto
      show ?thesis unfolding res using False r d dv by simp
    qed
  qed
qed

theorem nthChildSelector_formula_witness:
  "nthChildSelector (- 1 :: 64 word) 2 False olDoc (Some 2) = Inr True
   \<and> nthChildSelector (- 1 :: 64 word) 2 False olDoc (Some 3) = Inr False"
proof -
  have "nthChildSelector (- 1 :: 64 word) 2 False olDoc (Some 2)
        = Inr (if (- 1 :: 64 word) = 0 then (0::int) = 0 else sint (- 1 :: 64 word) dvd 0 \<and> 0 \<le> (0::int) div sint (- 1 :: 64 word))"
    by (rule nthChildSelector_formula[where p = 2 and parent = 0]) (simp_all add: olDoc_def element_def)
  moreover have "nthChildSelector (- 1 :: 64 word) 2 False olDoc (Some 3)
        = Inr (if (- 1 :: 64 word) = 0 then (1::int) = 0 else sint (- 1 :: 64 word) dvd 1 \<and> 0 \<le> (1::int) div sint (- 1 :: 64 word))"
    by (rule nthChildSelector_formula[where p = 3 and parent = 0]) (simp_all add: olDoc_def element_def)
  ultimately show ?thesis by simp
qed

text \<open>
  C1 as stated, for every pair \<open>(a, b)\<close>, fails where the subtraction wraps around:
  with 64-bit \<^verbatim>\<open>int\<close>, \<open>a = 1\<close> and \<open>b = - 2 ^ 63\<close>, the only child of its parent is
  at position 1, the integer \<open>q = 1 - b = 2 ^ 63 + 1\<close> is divisible by 1 with a
  non-negative quotient, and the predicate returns false.
\<close>

theorem nthChildSelector_formula_counterexample:
  "Parent (oneChildDoc 1) = Some 0 \<and> Child (oneChildDoc 0) ! (1 - 1) = Some 1
   \<and> nthChildSelector (1 :: 64 word) (- (2 ^ 63)) False oneChildDoc (Some 1) = Inr False
   \<and> (1 :: 64 word) \<noteq> 0
   \<and> sint (1 :: 64 word) dvd (int 1 - sint (- (2 ^ 63) :: 64 word))
   \<and> 0 \<le> (int 1 - sint (- (2 ^ 63) :: 64 word)) div sint (1 :: 64 word)"
proof -
  have s: "nthChild_search [Some (Suc 0)] (Some (Suc 0)) 0 = Inr 0"
    by (simp add: nthChild_search_step)
  have sb: "sint (- (2 ^ 63) :: 64 word) = - (2 ^ 63)"
    by simp
  have "(1 - (- (2 ^ 63)) :: 64 word) = word_of_int (1 - 2 ^ 63)" by simp
  then have "sint (1 - (- (2 ^ 63)) :: 64 word) = 1 - 2 ^ 63"
    by (simp only: signed_of_int) simp
  then have "nthChildSelector (1 :: 64 word) (- (2 ^ 63)) False oneChildDoc (Some 1) = Inr False"
    by (simp add: nthChildSelector_def oneChildDoc_def s go_mod_def go_div_def element_def)
  then show ?thesis using sb by (simp add: oneChildDoc_def element_def)
qed

lemma lower_simps:
  "toLowerASCII ''TITLE'' = ''title''"
  "toLowerASCII ''title'' = ''title''"
  "toLowerASCII ''lang'' = ''lang''"
  "toLowerASCII ''LANG'' = ''lang''"
  "toLowerASCII ''div'' = ''div''"
  "toLowerASCII ''DIV'' = ''div''"
  by code_simp+

section \<open>Nodes outside their parent's child list\<close>

text \<open>
  C9. For every formula \<open>(a, b)\<close> and flag \<open>last\<close>, if a node has a parent but does not
  occur anywhere in that parent's child list, the positional predicate returns
  false on it: the search loop runs to the end of the list, which is the
  non-match branch \<^verbatim>\<open>i == len(c)\<close>.
\<close>

theorem nthChildSelector_not_in_child_list:
  assumes "Parent (h n) = Some parent" and "Some n \<notin> set (Child (h parent))"
  shows "nthChildSelector a b last' h (Some n) = Inr False"
proof -
  have "nthChild_search (Child (h parent)) (Some n) 0 = Inr (length (Child (h parent)))"
    using assms(2) by (simp add: nthChild_search_end)
  then show ?thesis using assms(1) by (simp add: nthChildSelector_def)
qed

theorem nthChildSelector_not_in_child_list_witness:
  "Parent (orphanDoc 4) = Some 0 \<and> Some 4 \<notin> set (Child (orphanDoc 0))
   \<and> nthChildSelector (2 :: 64 word) 1 False orphanDoc (Some 4) = Inr False"
proof -
  have a: "Parent (orphanDoc 4) = Some 0"
    by (simp add: orphanDoc_def element_def)
  have b: "Some 4 \<notin> set (Child (orphanDoc 0))"
    by (simp add: orphanDoc_def olDoc_def element_def)
  show ?thesis
    using a b
      nthChildSelector_not_in_child_list[where h = orphanDoc and n = 4 and parent = 0
        and a = "2 :: 64 word" and b = 1 and last' = False]
    by simp
qed

section \<open>Attribute predicates\<close>

text \<open>
  C7. Each of the seven attribute predicates with key \<open>k\<close> returns false on a node
  whose own attribute list has no attribute with the ASCII-lowercased \<open>k\<close> as its
  key. The hypothesis speaks of the node's own list only: what its ancestors
  carry does not matter, as the example after the theorem shows on a child of a
  node that has the attribute.
\<close>

theorem attribute_absent_key:
  assumes "\<forall>a\<in>set (Attr (h x)). Key a \<noteq> toLowerASCII k"
  shows "attributeExistsSelector k h (Some x) = Inr False
       \<and> attributeEqualsSelector k v h (Some x) = Inr False
       \<and> attributeIncludesSelector k v h (Some x) = Inr False
       \<and> attributeDashmatchSelector k v h (Some x) = Inr False
       \<and> attributePrefixSelector k v h (Some x) = Inr False
       \<and> attributeSuffixSelector k v h (Some x) = Inr False
       \<and> attributeSubstringSelector k v h (Some x) = Inr False"
proof -
  let ?key = "toLowerASCII k" and ?as = "Attr (h x)"
  have "attributeExists_loop ?key ?as = False"
    using assms by (rule attributeExists_loop_no_key)
  moreover have "attributeEquals_loop ?key v ?as = False"
    using assms by (rule attributeEquals_loop_no_key)
  moreover have "attributeIncludes_loop ?key v ?as = Inr False"
    using assms by (rule attributeIncludes_loop_no_key)
  moreover have "attributeDashmatch_loop ?key v ?as = Inr False"
    using assms by (rule attributeDashmatch_loop_no_key)
  moreover have "attributePrefix_loop ?key v ?as = False"
    using assms by (rule attributePrefix_loop_no_key)
  moreover have "attributeSuffix_loop ?key v ?as = False"
    using assms by (rule attributeSuffix_loop_no_key)
  moreover have "attributeSubstring_loop ?key v ?as = False"
    using assms by (rule attributeSubstring_loop_no_key)
  ultimately show ?thesis
    by (simp add: attributeExistsSelector_def attributeEqualsSelector_def
        attributeIncludesSelector_def attributeDashmatchSelector_def attributePrefixSelector_def
        attributeSuffixSelector_def attributeSubstringSelector_def)
qed

theorem attribute_absent_key_witness:
  "attributeExistsSelector ''TITLE'' titledDoc (Some 1) = Inr False
   \<and> attributeEqualsSelector ''TITLE'' ''foo'' titledDoc (Some 1) = Inr False
   \<and> attributeIncludesSelector ''TITLE'' ''foo'' titledDoc (Some 1) = Inr False
   \<and> attributeDashmatchSelector ''TITLE'' ''foo'' titledDoc (Some 1) = Inr False
   \<and> attributePrefixSelector ''TITLE'' ''foo'' titledDoc (Some 1) = Inr False
   \<and> attributeSuffixSelector ''TITLE'' ''foo'' titledDoc (Some 1) = Inr False
   \<and> attributeSubstringSelector ''TITLE'' ''foo'' titledDoc (Some 1) = Inr False
   \<and> Parent (titledDoc 1) = Some 0
   \<and> attributeEqualsSelector ''TITLE'' ''foo'' titledDoc (Some 0) = Inr True"
proof -
  have h: "\<forall>a\<in>set (Attr (titledDoc 1)). Key a \<noteq> toLowerASCII ''TITLE''"
    by (simp add: titledDoc_def element_def lower_simps)
  have p: "Parent (titledDoc 1) = Some 0"
    by (simp add: titledDoc_def element_def)
  have q: "attributeEqualsSelector ''TITLE'' ''foo'' titledDoc (Some 0) = Inr True"
    by (simp add: attributeEqualsSelector_def titledDoc_def element_def lower_simps)
  show ?thesis
    using h p q
      attribute_absent_key[where h = titledDoc and x = 1 and k = "''TITLE''" and v = "''foo''"]
    by simp
qed





lemma attr_sel [simp]: "Key (attr k v) = k" "Val (attr k v) = v"
  by (simp_all add: attr_def)

lemma oneNode_sel [simp]:
  "Attr (oneNode tag attrs x) = attrs" "Type (oneNode tag attrs x) = ElementNode"
  "Data (oneNode tag attrs x) = tag" "Parent (oneNode tag attrs x) = None"
  "Child (oneNode tag attrs x) = []"
  by (simp_all add: oneNode_def element_def)

lemma whitespace_simps [simp]:
  "set whitespace = {CHR '' '', CHR 0x09, CHR 0x0D, CHR 0x0A, CHR 0x0C}"
  by (simp add: whitespace_def)



text \<open>
  C5 (amended). \<^verbatim>\<open>attributeDashmatchSelector(k, v)\<close> returns true on a node if and
  only if the node has an attribute whose key is the ASCII-lowercased \<open>k\<close> and the
  first such attribute has a value that equals \<open>v\<close> or consists of \<open>v\<close>, the
  byte \<^verbatim>\<open>-\<close> and any suffix. The example after the theorem is that of the
  specification: for \<^verbatim>\<open>lang\<close> and \<^verbatim>\<open>en\<close> the values \<^verbatim>\<open>en\<close> and \<^verbatim>\<open>en-gb\<close> match, \<^verbatim>\<open>enough\<close> and
  \<^verbatim>\<open>fr-en\<close> do not.
\<close>

theorem attributeDashmatchSelector_first_attribute:
  "attributeDashmatchSelector k v h (Some x)
     = Inr (case find (\<lambda>a. Key a = toLowerASCII k) (Attr (h x)) of
              None \<Rightarrow> False
            | Some a \<Rightarrow> Val a = v \<or> (\<exists>rest. Val a = v @ CHR ''-'' # rest))"
proof -
  have "attributeDashmatchSelector k v h (Some x)
        = attributeDashmatch_loop (toLowerASCII k) v (Attr (h x))"
    by (simp add: attributeDashmatchSelector_def)
  then show ?thesis by (simp only: attributeDashmatch_loop_first)
qed

theorem attributeDashmatchSelector_first_attribute_witness:
  "attributeDashmatchSelector ''lang'' ''en'' (oneNode ''p'' [attr ''lang'' ''en'']) (Some 0) = Inr True
   \<and> attributeDashmatchSelector ''lang'' ''en'' (oneNode ''p'' [attr ''lang'' ''en-gb'']) (Some 0) = Inr True
   \<and> attributeDashmatchSelector ''lang'' ''en'' (oneNode ''p'' [attr ''lang'' ''enough'']) (Some 0) = Inr False
   \<and> attributeDashmatchSelector ''lang'' ''en'' (oneNode ''p'' [attr ''lang'' ''fr-en'']) (Some 0) = Inr False"
  using attributeDashmatchSelector_first_attribute[where k = "''lang''" and v = "''en''"
      and h = "oneNode ''p'' [attr ''lang'' ''en'']" and x = 0]
    attributeDashmatchSelector_first_attribute[where k = "''lang''" and v = "''en''"
      and h = "oneNode ''p'' [attr ''lang'' ''en-gb'']" and x = 0]
    attributeDashmatchSelector_first_attribute[where k = "''lang''" and v = "''en''"
      and h = "oneNode ''p'' [attr ''lang'' ''enough'']" and x = 0]
    attributeDashmatchSelector_first_attribute[where k = "''lang''" and v = "''en''"
      and h = "oneNode ''p'' [attr ''lang'' ''fr-en'']" and x = 0]
  by (simp add: lower_simps)

text \<open>
  C5 as stated, with "has an attribute with key \<open>k\<close> whose value ...", fails on a
  node with two \<^verbatim>\<open>lang\<close> attributes of which the second has the value \<^verbatim>\<open>en\<close>, and
  on a node whose attribute key is the capitalised \<open>k\<close> itself.
\<close>

theorem attributeDashmatchSelector_first_attribute_counterexample:
  "Key ([attr ''lang'' ''fr'', attr ''lang'' ''en''] ! 1) = ''lang''
   \<and> Val ([attr ''lang'' ''fr'', attr ''lang'' ''en''] ! 1) = ''en''
   \<and> attributeDashmatchSelector ''lang'' ''en''
        (oneNode ''p'' [attr ''lang'' ''fr'', attr ''lang'' ''en'']) (Some 0) = Inr False
   \<and> attributeDashmatchSelector ''LANG'' ''en''
        (oneNode ''p'' [attr ''LANG'' ''en'']) (Some 0) = Inr False"
  by (simp add: attributeDashmatchSelector_def lower_simps)

text \<open>
  C4 (amended). For a non-empty value \<open>v\<close> and a node with at most one attribute
  whose key is the ASCII-lowercased \<open>k\<close>, \<^verbatim>\<open>attributeIncludesSelector(k, v)\<close>
  returns true if and only if that attribute's value, split on the five
  whitespace bytes, yields a token equal to \<open>v\<close>. Whenever \<open>v\<close> contains one of the
  five whitespace bytes, the predicate returns false on every node.
\<close>

theorem attributeIncludesSelector_tokens:
  "(v \<noteq> [] \<and> length (filter (\<lambda>a. Key a = toLowerASCII k) (Attr (h x))) \<le> 1 \<longrightarrow>
      attributeIncludesSelector k v h (Some x)
        = Inr (\<exists>a\<in>set (Attr (h x)). Key a = toLowerASCII k \<and> v \<in> set (split_ws (Val a))))
   \<and> (set v \<inter> set whitespace \<noteq> {} \<longrightarrow> attributeIncludesSelector k v h (Some x) = Inr False)"
proof -
  have sel: "attributeIncludesSelector k v h (Some x)
        = attributeIncludes_loop (toLowerASCII k) v (Attr (h x))"
    by (simp add: attributeIncludesSelector_def)
  have "attributeIncludes_loop (toLowerASCII k) v (Attr (h x))
        = Inr (\<exists>a\<in>set (Attr (h x)). Key a = toLowerASCII k \<and> v \<in> set (split_ws (Val a)))"
    if "v \<noteq> []" "length (filter (\<lambda>a. Key a = toLowerASCII k) (Attr (h x))) \<le> 1"
    using that by (rule attributeIncludes_loop_single)
  moreover have "attributeIncludes_loop (toLowerASCII k) v (Attr (h x)) = Inr False"
    if "set v \<inter> set whitespace \<noteq> {}"
    using that by (rule attributeIncludes_loop_whitespace)
  ultimately show ?thesis unfolding sel by blast
qed

theorem attributeIncludesSelector_tokens_witness:
  "attributeIncludesSelector ''title'' ''foo''
     (oneNode ''p'' [attr ''title'' ''tot foo bar'']) (Some 0) = Inr True
   \<and> attributeIncludesSelector ''title'' ''hello world''
     (oneNode ''p'' [attr ''title'' ''hello world'']) (Some 0) = Inr False"
  using attributeIncludesSelector_tokens[where k = "''title''" and v = "''foo''"
      and h = "oneNode ''p'' [attr ''title'' ''tot foo bar'']" and x = 0]
    attributeIncludesSelector_tokens[where k = "''title''" and v = "''hello world''"
      and h = "oneNode ''p'' [attr ''title'' ''hello world'']" and x = 0]
  by (simp add: lower_simps)

text \<open>
  C4 as stated fails on a node with two \<^verbatim>\<open>title\<close> attributes of which only the
  second has the token, and for the empty \<open>v\<close>: the piece after the last
  whitespace byte of \<^verbatim>\<open>"x "\<close> is empty and is not compared.
\<close>

theorem attributeIncludesSelector_tokens_counterexample:
  "Key ([attr ''title'' ''bar'', attr ''title'' ''foo''] ! 1) = toLowerASCII ''title''
   \<and> ''foo'' \<in> set (split_ws (Val ([attr ''title'' ''bar'', attr ''title'' ''foo''] ! 1)))
   \<and> attributeIncludesSelector ''title'' ''foo''
        (oneNode ''p'' [attr ''title'' ''bar'', attr ''title'' ''foo'']) (Some 0) = Inr False
   \<and> [] \<in> set (split_ws ''x '')
   \<and> attributeIncludesSelector ''title'' []
        (oneNode ''p'' [attr ''title'' ''x '']) (Some 0) = Inr False"
proof -
  have i: "includes_scan ''bar'' ''foo'' = Inr (Some False)" "includes_scan ''x '' [] = Inr None"
    by code_simp+
  show ?thesis
    by (simp add: attributeIncludesSelector_def lower_simps i)
qed

section \<open>The type predicate\<close>

text \<open>
  C6 (amended). \<^verbatim>\<open>typeSelector(t)\<close> returns true on a node exactly when the node
  is an element whose stored tag name is, byte for byte, the ASCII-lowercased
  \<open>t\<close>: only the selector's tag is folded. So on nodes whose stored tag name has
  no ASCII capital, as the markup parser delivers them, it returns true exactly
  when the tag name equals \<open>t\<close> up to ASCII case; the predicate built from
  \<^verbatim>\<open>DIV\<close> matches an element stored as \<^verbatim>\<open>div\<close>.
\<close>

theorem typeSelector_folds_selector_tag:
  "typeSelector t h (Some x)
     = Inr (Type (h x) = ElementNode \<and> Data (h x) = map lowerASCII t)
   \<and> ((\<forall>c\<in>set (Data (h x)). \<not> isUpperASCII c) \<longrightarrow>
        typeSelector t h (Some x)
          = Inr (Type (h x) = ElementNode \<and> eqFoldASCII (Data (h x)) t))"
proof -
  have a: "typeSelector t h (Some x)
     = Inr (Type (h x) = ElementNode \<and> Data (h x) = map lowerASCII t)"
    by (simp add: typeSelector_def toLowerASCII_eq)
  have "map lowerASCII (Data (h x)) = Data (h x)" if "\<forall>c\<in>set (Data (h x)). \<not> isUpperASCII c"
    using that by (simp add: lowerASCII_def map_idI)
  then have "(\<forall>c\<in>set (Data (h x)). \<not> isUpperASCII c) \<longrightarrow>
        (Data (h x) = map lowerASCII t) = eqFoldASCII (Data (h x)) t"
    by (simp add: eqFoldASCII_def)
  then show ?thesis using a by simp
qed

lemma isUpperASCII_div: "\<forall>c\<in>set ''div''. \<not> isUpperASCII c"
  by code_simp

lemma lowerASCII_examples:
  "lowerASCII CHR ''D'' = CHR ''d''" "lowerASCII CHR ''I'' = CHR ''i''"
  "lowerASCII CHR ''V'' = CHR ''v''"
  by code_simp+

lemma eqFold_examples: "eqFoldASCII ''div'' ''DIV''" "eqFoldASCII ''DIV'' ''div''"
  by code_simp+

theorem typeSelector_folds_selector_tag_witness:
  "eqFoldASCII (Data (oneNode ''div'' [] 0)) ''DIV''
   \<and> typeSelector ''DIV'' (oneNode ''div'' [] ) (Some 0) = Inr True"
  using typeSelector_folds_selector_tag[where t = "''DIV''" and h = "oneNode ''div'' []" and x = 0]
  by (simp add: isUpperASCII_div eqFold_examples lowerASCII_examples)

text \<open>
  C6 as stated fails: the predicate built from \<^verbatim>\<open>div\<close> does not match an element
  whose stored tag name is \<^verbatim>\<open>DIV\<close>, though the two are equal up to ASCII case.
\<close>

theorem typeSelector_folds_selector_tag_counterexample:
  "Type (oneNode ''DIV'' [] 0) = ElementNode
   \<and> eqFoldASCII (Data (oneNode ''DIV'' [] 0)) ''div''
   \<and> typeSelector ''div'' (oneNode ''DIV'' []) (Some 0) = Inr False"
  by (simp add: typeSelector_def lower_simps eqFold_examples)

section \<open>MatchAll\<close>

lemma height_child: "t \<in> set ts \<Longrightarrow> height t \<le> foldr max (map height ts) 0"
  by (induction ts) auto

lemma height_pos: "0 < height t"
  by (cases t) simp

lemma MatchAll_children_run:
  assumes "\<forall>t\<in>set ts. MatchAll k s h (Some (root t)) = Some (Inr (F t))"
  shows "MatchAll_children k s h (map (\<lambda>t. Some (root t)) ts) acc
         = Some (Inr (acc @ concat (map F ts)))"
  using assms by (induction ts arbitrary: acc) simp_all

lemma MatchAll_run:
  assumes "is_tree h t" and "\<forall>x\<in>set (preorder t). \<exists>r. s h (Some x) = Inr r"
    and "height t \<le> k"
  shows "MatchAll k s h (Some (root t))
         = Some (Inr (filter (\<lambda>n. s h n = Inr True) (map Some (preorder t))))"
  using assms
proof (induction t arbitrary: k)
  case (Tree x ts)
  let ?P = "\<lambda>n. s h n = Inr True"
  obtain k' where k: "k = Suc k'" using Tree.prems(3) by (cases k) auto
  obtain m where m: "s h (Some x) = Inr m" using Tree.prems(2) by auto
  have ch: "Child (h x) = map (\<lambda>t. Some (root t)) ts" using Tree.prems(1) by simp
  have sub: "\<forall>t\<in>set ts. MatchAll k' s h (Some (root t))
               = Some (Inr (filter ?P (map Some (preorder t))))"
  proof
    fix t assume t: "t \<in> set ts"
    have "is_tree h t" using Tree.prems(1) t by simp
    moreover have "\<forall>y\<in>set (preorder t). \<exists>r. s h (Some y) = Inr r"
      using Tree.prems(2) t by auto
    moreover have "height t \<le> k'"
      using Tree.prems(3) k height_child[OF t] by simp
    ultimately show "MatchAll k' s h (Some (root t))
               = Some (Inr (filter ?P (map Some (preorder t))))"
      using Tree.IH[OF t] by blast
  qed
  have "MatchAll k s h (Some (root (Tree x ts)))
        = MatchAll_children k' s h (map (\<lambda>t. Some (root t)) ts) (if m then [Some x] else [])"
    using k m ch by simp
  also have "\<dots> = Some (Inr ((if m then [Some x] else [])
                 @ concat (map (\<lambda>t. filter ?P (map Some (preorder t))) ts)))"
    using sub by (rule MatchAll_children_run)
  also have "(if m then [Some x] else [])
                 @ concat (map (\<lambda>t. filter ?P (map Some (preorder t))) ts)
             = filter ?P (map Some (preorder (Tree x ts)))"
    using m by (simp add: map_concat filter_concat comp_def)
  finally show ?case .
qed

lemma MatchAll_tested_run:
  assumes "is_tree h t" and "height t \<le> k"
  shows "MatchAll_tested k h (Some (root t)) = map Some (preorder t)"
  using assms
proof (induction t arbitrary: k)
  case (Tree x ts)
  obtain k' where k: "k = Suc k'" using Tree.prems(2) by (cases k) auto
  have ch: "Child (h x) = map (\<lambda>t. Some (root t)) ts" using Tree.prems(1) by simp
  have eq: "map (\<lambda>t. MatchAll_tested k' h (Some (root t))) ts
        = map (\<lambda>t. map Some (preorder t)) ts"
  proof (rule map_cong[OF refl])
    fix t assume t: "t \<in> set ts"
    have "is_tree h t" using Tree.prems(1) t by simp
    moreover have "height t \<le> k'"
      using Tree.prems(2) k height_child[OF t] by simp
    ultimately show "MatchAll_tested k' h (Some (root t)) = map Some (preorder t)"
      using Tree.IH[OF t] by simp
  qed
  have "MatchAll_tested k h (Some (root (Tree x ts)))
        = Some x # concat (map (\<lambda>t. MatchAll_tested k' h (Some (root t))) ts)"
    using k ch by (simp add: comp_def)
  also have "\<dots> = Some x # concat (map (\<lambda>t. map Some (preorder t)) ts)"
    by (simp only: eq)
  also have "\<dots> = map Some (preorder (Tree x ts))"
    by (simp add: map_concat comp_def)
  finally show ?case .
qed

lemma count_list_distinct:
  "distinct xs \<Longrightarrow> x \<in> set xs \<Longrightarrow> count_list xs x = 1"
  by (induction xs) (auto simp: count_list_0_iff)

lemma subtree_preorder:
  "u \<in> set (subtrees t) \<Longrightarrow> \<exists>pre post. preorder t = pre @ preorder u @ post"
proof (induction t)
  case (Tree x ts)
  show ?case
  proof (cases "u = Tree x ts")
    case True
    have "preorder (Tree x ts) = [] @ preorder u @ []" using True by simp
    then show ?thesis by blast
  next
    case False
    then obtain t' where t': "t' \<in> set ts" "u \<in> set (subtrees t')"
      using Tree.prems by auto
    obtain pre post where pp: "preorder t' = pre @ preorder u @ post"
      using Tree.IH[OF t'] by blast
    obtain ts1 ts2 where sp: "ts = ts1 @ t' # ts2"
      using t'(1) by (meson split_list)
    have "preorder (Tree x ts)
          = (x # concat (map preorder ts1) @ pre) @ preorder u @ (post @ concat (map preorder ts2))"
      by (simp add: sp pp)
    then show ?thesis by blast
  qed
qed

lemma ancestor_first:
  assumes "u \<in> set (subtrees t)" and "d \<in> set (descendants u)"
    and "P (Some (root u))" and "P (Some d)"
  shows "\<exists>xs ys zs. filter P (map Some (preorder t)) = xs @ Some (root u) # ys @ Some d # zs"
proof -
  obtain pre post where pp: "preorder t = pre @ preorder u @ post"
    using subtree_preorder[OF assms(1)] by blast
  obtain a us where u: "u = Tree a us" by (cases u)
  have "d \<in> set (concat (map preorder us))" using assms(2) u by simp
  then obtain d1 d2 where dd: "concat (map preorder us) = d1 @ d # d2"
    by (meson split_list)
  have "preorder t = pre @ a # d1 @ d # d2 @ post"
    using pp u dd by simp
  then have "filter P (map Some (preorder t))
        = filter P (map Some pre) @ Some (root u) # filter P (map Some d1)
          @ Some d # filter P (map Some (d2 @ post))"
    using assms(3,4) u by simp
  then show ?thesis by blast
qed

text \<open>
  C2. Let the store hold a tree \<open>t\<close> (no node occurs twice in it), let \<open>s\<close> be a
  predicate, returning a boolean on every node of \<open>t\<close>, and let the fuel \<open>k\<close> be at
  least the height of \<open>t\<close>. Then \<^verbatim>\<open>MatchAll\<close> on the root of \<open>t\<close> returns, and its
  result is the pre-order listing of \<open>t\<close> filtered by \<open>s\<close>: by the definition of
  the listing, the root first if and only if \<open>s\<close> holds of it, then the results of
  the children in child-list order, whatever the root's own result. The calls
  of \<open>s\<close> are the pre-order listing, so every node is tested exactly once; and
  the root of every subtree that matches stands in the result before each of
  its matching proper descendants.
\<close>

theorem MatchAll_preorder:
  assumes "is_tree h t" and "distinct (preorder t)"
    and "\<forall>x\<in>set (preorder t). \<exists>r. s h (Some x) = Inr r"
    and "height t \<le> k"
  shows "\<exists>r. MatchAll k s h (Some (root t)) = Some (Inr r)
       \<and> r = filter (\<lambda>n. s h n = Inr True) (map Some (preorder t))
       \<and> MatchAll_tested k h (Some (root t)) = map Some (preorder t)
       \<and> (\<forall>x\<in>set (preorder t). count_list (MatchAll_tested k h (Some (root t))) (Some x) = 1)
       \<and> (\<forall>u\<in>set (subtrees t). \<forall>d\<in>set (descendants u).
            s h (Some (root u)) = Inr True \<and> s h (Some d) = Inr True \<longrightarrow>
            (\<exists>xs ys zs. r = xs @ Some (root u) # ys @ Some d # zs))"
proof -
  let ?r = "filter (\<lambda>n. s h n = Inr True) (map Some (preorder t))"
  have run: "MatchAll k s h (Some (root t)) = Some (Inr ?r)"
    using assms(1,3,4) by (rule MatchAll_run)
  have tested: "MatchAll_tested k h (Some (root t)) = map Some (preorder t)"
    using assms(1,4) by (rule MatchAll_tested_run)
  have once: "\<forall>x\<in>set (preorder t). count_list (MatchAll_tested k h (Some (root t))) (Some x) = 1"
  proof
    fix x assume "x \<in> set (preorder t)"
    moreover have "distinct (map Some (preorder t))"
      using assms(2) by (simp add: distinct_map)
    ultimately show "count_list (MatchAll_tested k h (Some (root t))) (Some x) = 1"
      unfolding tested by (intro count_list_distinct) simp_all
  qed
  have order: "\<forall>u\<in>set (subtrees t). \<forall>d\<in>set (descendants u).
            s h (Some (root u)) = Inr True \<and> s h (Some d) = Inr True \<longrightarrow>
            (\<exists>xs ys zs. ?r = xs @ Some (root u) # ys @ Some d # zs)"
  proof (intro ballI impI)
    fix u d
    assume "u \<in> set (subtrees t)" "d \<in> set (descendants u)"
      "s h (Some (root u)) = Inr True \<and> s h (Some d) = Inr True"
    then show "\<exists>xs ys zs. ?r = xs @ Some (root u) # ys @ Some d # zs"
      using ancestor_first[where P = "\<lambda>n. s h n = Inr True" and u = u and t = t and d = d]
      by simp
  qed
  show ?thesis using run tested once order by blast
qed

lemma htmlDoc_tree: "is_tree htmlDoc htmlTree"
  by (simp add: htmlDoc_def htmlTree_def element_def leafNode_def)

theorem MatchAll_preorder_witness:
  "MatchAll 3 matchEverything htmlDoc (Some 0) = Some (Inr [Some 0, Some 1, Some 2, Some 3])
   \<and> MatchAll 3 (typeSelector ''head'') htmlDoc (Some 0) = Some (Inr [Some 2])
   \<and> MatchAll_tested 3 htmlDoc (Some 0) = [Some 0, Some 1, Some 2, Some 3]"
proof -
  have d: "distinct (preorder htmlTree)" "height htmlTree \<le> 3" "root htmlTree = 0"
    "preorder htmlTree = [0, 1, 2, 3]"
    by (simp_all add: htmlTree_def)
  have e: "\<forall>x\<in>set (preorder htmlTree). \<exists>r. matchEverything htmlDoc (Some x) = Inr r"
    by (auto simp: matchEverything_def)
  have f: "\<forall>x\<in>set (preorder htmlTree). \<exists>r. typeSelector ''head'' htmlDoc (Some x) = Inr r"
    by (auto simp: typeSelector_def)
  have l: "toLowerASCII ''head'' = ''head''" by code_simp
  have g: "filter (\<lambda>n. typeSelector ''head'' htmlDoc n = Inr True) [Some 0, Some 1, Some 2, Some 3]
           = [Some 2]"
    by (simp add: typeSelector_def l htmlDoc_def element_def)
  have A: "\<exists>r. MatchAll 3 matchEverything htmlDoc (Some (root htmlTree)) = Some (Inr r)
       \<and> r = filter (\<lambda>n. matchEverything htmlDoc n = Inr True) (map Some (preorder htmlTree))
       \<and> MatchAll_tested 3 htmlDoc (Some (root htmlTree)) = map Some (preorder htmlTree)"
    using MatchAll_preorder[where h = htmlDoc and t = htmlTree and s = matchEverything and k = 3]
      htmlDoc_tree d(1,2) e by blast
  have B: "\<exists>r. MatchAll 3 (typeSelector ''head'') htmlDoc (Some (root htmlTree)) = Some (Inr r)
       \<and> r = filter (\<lambda>n. typeSelector ''head'' htmlDoc n = Inr True)
                 (map Some (preorder htmlTree))"
    using MatchAll_preorder[where h = htmlDoc and t = htmlTree and s = "typeSelector ''head''"
        and k = 3]
      htmlDoc_tree d(1,2) f by blast
  have m: "filter (\<lambda>n. matchEverything htmlDoc n = Inr True) [Some 0, Some 1, Some 2, Some 3]
           = [Some 0, Some 1, Some 2, Some 3]"
    by (simp add: matchEverything_def)
  have pre: "map Some (preorder htmlTree) = [Some 0, Some 1, Some 2, Some 3]"
    by (simp add: d(4))
  have "MatchAll 3 matchEverything htmlDoc (Some 0) = Some (Inr [Some 0, Some 1, Some 2, Some 3])"
    using A unfolding pre m d(3) by blast
  moreover have "MatchAll_tested 3 htmlDoc (Some 0) = [Some 0, Some 1, Some 2, Some 3]"
    using A unfolding pre m d(3) by blast
  moreover have "MatchAll 3 (typeSelector ''head'') htmlDoc (Some 0) = Some (Inr [Some 2])"
    using B unfolding pre g d(3) by blast
  ultimately show ?thesis by blast
qed

text \<open>
  The operations of Go that can panic while a predicate runs, outside their
  ranges: they are branches of the model, and a predicate that reached one of
  them would return the panic.
\<close>

lemma go_div_by_zero: "go_div x 0 = Inl DivideByZero"
  by (simp add: go_div_def)

lemma go_mod_by_zero: "go_mod x 0 = Inl DivideByZero"
  by (simp add: go_mod_def)

lemma go_index_beyond: "length s \<le> i \<Longrightarrow> go_index s i = Inl IndexOutOfRange"
  by (simp add: go_index_def)

lemma go_slice_to_beyond: "length s < j \<Longrightarrow> go_slice_to s j = Inl IndexOutOfRange"
  by (simp add: go_slice_to_def)

lemma go_slice_from_beyond: "length s < i \<Longrightarrow> go_slice_from s i = Inl IndexOutOfRange"
  by (simp add: go_slice_from_def)

text \<open>
  The slices \<^verbatim>\<open>s[:i]\<close> and \<^verbatim>\<open>s[i+1:]\<close> of \<^verbatim>\<open>attributeIncludesSelector\<close> are taken at
  an index that \<^verbatim>\<open>strings.IndexAny\<close> returned, below the length of \<open>s\<close>.
\<close>

lemma includes_scan_total: "\<exists>r. includes_scan s val = Inr r"
  by (simp add: includes_scan_eq)

lemma attributeIncludes_loop_total: "\<exists>r. attributeIncludes_loop key val as = Inr r"
proof (induction as)
  case Nil
  show ?case by auto
next
  case (Cons a as)
  obtain r where r: "includes_scan (Val a) val = Inr r"
    using includes_scan_total by blast
  show ?case
  proof (cases r)
    case None
    then show ?thesis using Cons.IH r by simp
  next
    case (Some b)
    then show ?thesis using Cons.IH r by simp
  qed
qed

text \<open>
  The slice \<^verbatim>\<open>a.Val[:len(val)]\<close> and the index \<^verbatim>\<open>a.Val[len(val)]\<close> of
  \<^verbatim>\<open>attributeDashmatchSelector\<close> come after the test \<^verbatim>\<open>len(a.Val) <= len(val)\<close>.
\<close>

lemma attributeDashmatch_loop_total: "\<exists>r. attributeDashmatch_loop key val as = Inr r"
  by (simp add: attributeDashmatch_loop_first)

text \<open>
  In \<^verbatim>\<open>nthChildSelector\<close> the index \<^verbatim>\<open>c[i]\<close> is below \<^verbatim>\<open>len(c)\<close> by the loop
  condition, and \<^verbatim>\<open>i%a\<close> and \<^verbatim>\<open>i/a\<close> come after the test \<^verbatim>\<open>a == 0\<close>.
\<close>

lemma nthChildSelector_total:
  "\<exists>r. nthChildSelector (a :: 'w::len word) b last' h (Some x) = Inr r"
proof (cases "Parent (h x)")
  case None
  then show ?thesis by (auto simp: nthChildSelector_def)
next
  case (Some parent)
  let ?c = "Child (h parent)"
  obtain j where j: "nthChild_search ?c (Some x) 0 = Inr j"
    using nthChild_search_total[of 0 ?c "Some x"] by auto
  show ?thesis
  proof (cases "j = length ?c")
    case True
    then show ?thesis using Some j by (auto simp: nthChildSelector_def)
  next
    case nj: False
    define i2 :: "'w word"
      where "i2 = (if last' then of_nat (length ?c) - of_nat j else of_nat j + 1) - b"
    have res: "nthChildSelector a b last' h (Some x)
          = (if a = 0 then Inr (i2 = 0)
             else (case go_mod i2 a of Inl e \<Rightarrow> Inl e
                   | Inr r \<Rightarrow> if r = 0 then (case go_div i2 a of Inl e \<Rightarrow> Inl e
                                                | Inr q \<Rightarrow> Inr (0 \<le> sint q))
                              else Inr False))"
      unfolding i2_def using Some j nj by (simp add: nthChildSelector_def Let_def)
    show ?thesis
    proof (cases "a = 0")
      case True
      then show ?thesis using res by auto
    next
      case na: False
      obtain r where r: "go_mod i2 a = Inr r" using go_mod_zero_iff[OF na, of i2] by blast
      obtain q where q: "go_div i2 a = Inr q" using go_div_total[OF na, of i2] by blast
      show ?thesis using res na r q by auto
    qed
  qed
qed

lemma constructed_total:
  "constructed w s \<Longrightarrow> \<exists>r. s h (Some x) = Inr r"
proof (induction arbitrary: h x rule: constructed.induct)
  case (c_includes key val)
  show ?case
    using attributeIncludes_loop_total[of "toLowerASCII key" val "Attr (h x)"]
    by (simp add: attributeIncludesSelector_def)
next
  case (c_dashmatch key val)
  show ?case
    using attributeDashmatch_loop_total[of "toLowerASCII key" val "Attr (h x)"]
    by (simp add: attributeDashmatchSelector_def)
next
  case (c_intersection p q)
  obtain rp where "p h (Some x) = Inr rp" using c_intersection.IH(1) by blast
  moreover obtain rq where "q h (Some x) = Inr rq" using c_intersection.IH(2) by blast
  ultimately show ?case by (auto simp: intersectionSelector_def)
next
  case (c_negated p)
  obtain rp where "p h (Some x) = Inr rp" using c_negated.IH by blast
  then show ?case by (auto simp: negatedSelector_def)
next
  case (c_nthChild a b last')
  show ?case by (rule nthChildSelector_total)
qed (auto simp: matchEverything_def typeSelector_def attributeExistsSelector_def
      attributeEqualsSelector_def attributePrefixSelector_def attributeSuffixSelector_def
      attributeSubstringSelector_def)

text \<open>
  C8. Matching never fails. Nil dereference, division by zero, and indexing and
  slicing out of range are results of the model, so that a predicate can fail.
  A predicate built by the constructors of the package returns a boolean and
  none of these panics on every node: the guards of the code (the test
  \<^verbatim>\<open>a == 0\<close> before \<^verbatim>\<open>i%a\<close> and \<^verbatim>\<open>i/a\<close>, the test \<^verbatim>\<open>len(a.Val) <= len(val)\<close> before
  \<^verbatim>\<open>a.Val[:len(val)]\<close> and \<^verbatim>\<open>a.Val[len(val)]\<close>, the loop condition before \<^verbatim>\<open>c[i]\<close>,
  the result of \<^verbatim>\<open>strings.IndexAny\<close> before \<^verbatim>\<open>s[:i]\<close> and \<^verbatim>\<open>s[i+1:]\<close>) keep every
  operation in its range. \<^verbatim>\<open>MatchAll\<close> with such a predicate over a tree that
  the store holds returns a node list, given fuel for the height of the tree;
  and the positional predicate returns false on a node with no parent.
\<close>

theorem matching_never_fails:
  "(constructed TYPE('w::len) s \<longrightarrow> (\<exists>r. s h (Some x) = Inr r))
   \<and> (constructed TYPE('w) s \<and> is_tree h t \<and> height t \<le> k \<longrightarrow>
        (\<exists>ns. MatchAll k s h (Some (root t)) = Some (Inr ns)))
   \<and> (Parent (h x) = None \<longrightarrow>
        nthChildSelector (a :: 'w word) b last' h (Some x) = Inr False)"
proof (intro conjI impI)
  assume "constructed TYPE('w) s"
  then show "\<exists>r. s h (Some x) = Inr r" by (rule constructed_total)
next
  assume c: "constructed TYPE('w) s \<and> is_tree h t \<and> height t \<le> k"
  then have "\<forall>y\<in>set (preorder t). \<exists>r. s h (Some y) = Inr r"
    using constructed_total by blast
  then have "MatchAll k s h (Some (root t))
         = Some (Inr (filter (\<lambda>n. s h n = Inr True) (map Some (preorder t))))"
    using c by (intro MatchAll_run) simp_all
  then show "\<exists>ns. MatchAll k s h (Some (root t)) = Some (Inr ns)" by blast
next
  assume "Parent (h x) = None"
  then show "nthChildSelector a b last' h (Some x) = Inr False"
    by (simp add: nthChildSelector_def)
qed

section \<open>Compile\<close>

text \<open>
  C3. When the simple selector sequence parses with no error and leaves the
  cursor before the end of the selector, \<^verbatim>\<open>Compile\<close> returns \<^verbatim>\<open>nil\<close> for the
  predicate together with the error made from the selector text and the number
  of bytes after the cursor; the predicate of the consumed prefix is not
  returned.
\<close>

theorem Compile_leftover:
  assumes "parse \<lparr>parser_s = sel, parser_i = 0\<rparr> = ((sel_fn, None), p')"
    and "parser_i p' < length sel"
  shows "Compile parse sel
         = (None, Some (Errorf ''parsing %q: %d bytes left over''
                          [ArgString sel, ArgInt (int (length sel) - int (parser_i p'))]))"
proof -
  have "Compile parse sel
        = (if (None :: error option) \<noteq> None then (None, None)
           else if parser_i p' < length sel then
             (None, Some (Errorf ''parsing %q: %d bytes left over''
                            [ArgString sel, ArgInt (int (length sel) - int (parser_i p'))]))
           else (sel_fn, None))"
    unfolding Compile_def Let_def assms(1) by simp
  then show ?thesis using assms(2) by simp
qed

theorem Compile_leftover_witness:
  "parser_i (snd (tagParser \<lparr>parser_s = ''div foo'', parser_i = 0\<rparr>)) = 3
   \<and> Compile tagParser ''div foo''
       = (None, Some (Errorf ''parsing %q: %d bytes left over'' [ArgString ''div foo'', ArgInt 4]))"
proof -
  have p: "tagParser \<lparr>parser_s = ''div foo'', parser_i = 0\<rparr>
           = ((Some (typeSelector ''div''), None), \<lparr>parser_s = ''div foo'', parser_i = 3\<rparr>)"
    by (simp add: tagParser_def)
  have l: "parser_i \<lparr>parser_s = ''div foo'', parser_i = 3\<rparr> < length ''div foo''" by simp
  show ?thesis
    using p l
      Compile_leftover[where parse = tagParser and sel = "''div foo''"
        and sel_fn = "Some (typeSelector ''div'')"
        and p' = "\<lparr>parser_s = ''div foo'', parser_i = 3\<rparr>"]
    by simp
qed

lemma liOdd_eval:
  "liOdd olDoc (Some 0) = Inr False" "liOdd olDoc (Some 1) = Inr True"
  "liOdd olDoc (Some 2) = Inr False" "liOdd olDoc (Some 3) = Inr True"
  by code_simp+

lemma olDoc_tree: "is_tree olDoc olTree"
  by (simp add: olDoc_def olTree_def element_def leafNode_def)

text \<open>
  \<^verbatim>\<open>li:nth-child(odd)\<close> on the list of three items; then the two guarded places
  at inputs where the operation behind the guard would panic: \<^verbatim>\<open>[lang|="en-gb"]\<close>
  on the value \<^verbatim>\<open>en\<close>, shorter than \<^verbatim>\<open>en-gb\<close>, and \<^verbatim>\<open>:nth-child(1)\<close>, where \<open>a\<close> is
  zero, on the first item.
\<close>

theorem matching_never_fails_witness:
  "constructed TYPE(64) liOdd
   \<and> liOdd olDoc (Some 0) = Inr False
   \<and> MatchAll 2 liOdd olDoc (Some 0) = Some (Inr [Some 1, Some 3])
   \<and> Parent (olDoc 0) = None
   \<and> nthChildSelector (2 :: 64 word) 1 False olDoc (Some 0) = Inr False
   \<and> constructed TYPE(64) (attributeDashmatchSelector ''lang'' ''en-gb'')
   \<and> attributeDashmatchSelector ''lang'' ''en-gb'' (oneNode ''p'' [attr ''lang'' ''en'']) (Some 0)
       = Inr False
   \<and> go_slice_to ''en'' (length ''en-gb'') = Inl IndexOutOfRange
   \<and> constructed TYPE(64) (nthChildSelector (0 :: 64 word) 1 False)
   \<and> nthChildSelector (0 :: 64 word) 1 False olDoc (Some 1) = Inr True
   \<and> go_mod (0 :: 64 word) 0 = Inl DivideByZero"
proof -
  have c: "constructed TYPE(64) liOdd"
    unfolding liOdd_def by (intro constructed.intros)
  have t: "height olTree \<le> 2" "root olTree = 0" "preorder olTree = [0, 1, 2, 3]"
    by (simp_all add: olTree_def)
  have p: "Parent (olDoc 0) = None" by (simp add: olDoc_def element_def)
  have tot: "\<forall>y\<in>set (preorder olTree). \<exists>r. liOdd olDoc (Some y) = Inr r"
    using c constructed_total by blast
  have run: "MatchAll 2 liOdd olDoc (Some (root olTree))
         = Some (Inr (filter (\<lambda>n. liOdd olDoc n = Inr True) (map Some (preorder olTree))))"
    using olDoc_tree tot t(1) by (rule MatchAll_run)
  have e1: "liOdd olDoc (Some (Suc 0)) = Inr True" using liOdd_eval(2) by simp
  have "filter (\<lambda>n. liOdd olDoc n = Inr True) (map Some (preorder olTree)) = [Some 1, Some 3]"
    by (simp add: t(3) liOdd_eval e1)
  then have m: "MatchAll 2 liOdd olDoc (Some 0) = Some (Inr [Some 1, Some 3])"
    using run t(2) by simp
  have d: "constructed TYPE(64) (attributeDashmatchSelector ''lang'' ''en-gb'')"
    by (rule c_dashmatch)
  have dv: "attributeDashmatchSelector ''lang'' ''en-gb''
              (oneNode ''p'' [attr ''lang'' ''en'']) (Some 0) = Inr False"
    by (simp add: attributeDashmatchSelector_def lower_simps)
  have sl: "go_slice_to ''en'' (length ''en-gb'') = Inl IndexOutOfRange"
    by (simp add: go_slice_to_def)
  have n: "constructed TYPE(64) (nthChildSelector (0 :: 64 word) 1 False)"
    by (rule c_nthChild)
  have nv: "nthChildSelector (0 :: 64 word) 1 False olDoc (Some 1) = Inr True"
    by code_simp
  have md: "go_mod (0 :: 64 word) 0 = Inl DivideByZero"
    by (simp add: go_mod_def)
  show ?thesis
    using c p m liOdd_eval(1) d dv sl n nv md
      matching_never_fails[where s = liOdd and h = olDoc and x = 0 and t = olTree and k = 2
        and a = "2 :: 64 word" and b = 1 and last' = False]
      matching_never_fails[where s = "attributeDashmatchSelector ''lang'' ''en-gb''"
        and h = "oneNode ''p'' [attr ''lang'' ''en'']" and x = 0 and t = olTree and k = 2
        and a = "2 :: 64 word" and b = 1 and last' = False]
      matching_never_fails[where s = "nthChildSelector (0 :: 64 word) 1 False"
        and h = olDoc and x = 1 and t = olTree and k = 2
        and a = "0 :: 64 word" and b = 1 and last' = False]
    by simp
qed

end
